theory Spec2Isabelle
  imports Complex_Main "HOL-Library.Word" "HOL-Library.Multiset"
begin

unbundle bit_operations_syntax

section \<open>Go values shared by the packages\<close>

text \<open>
  A Go call either returns or panics; a loop that never exits is the value \<open>None\<close> of an
  option around the result. \<open>NoStops k\<close> is the error value built by
  \<^verbatim>\<open>fmt.Errorf("no stops configured for provider %q", provKey)\<close> in runner.go.
\<close>

datatype go_error = Panic string | NoStops string

text \<open>Decimal rendering of an integer, as the verb \<^verbatim>\<open>%d\<close> of fmt prints it.\<close>

definition digit_char :: "nat \<Rightarrow> char" where
  "digit_char n = ''0123456789'' ! n"

function show_nat :: "nat \<Rightarrow> string" where
  "show_nat n = (if n < 10 then [digit_char n] else show_nat (n div 10) @ [digit_char (n mod 10)])"
  by pat_completeness auto
termination
  by (relation "measure (\<lambda>n. n)") auto

declare show_nat.simps [simp del]

definition show_int :: "int \<Rightarrow> string" where
  "show_int i = (if i < 0 then CHR ''-'' # show_nat (nat (- i)) else show_nat (nat i))"

section \<open>Package device: the data model (device.go)\<close>

datatype State =
    StateInit | StateRegistering | StateAuthenticating | StateLinking
  | StateConfiguring | StateActive | StateError | StateDone

datatype EventType = EventActive | EventError | EventDone | EventMQTT

text \<open>\<^verbatim>\<open>Event{DeviceID, Type}\<close>.\<close>

datatype Event = Event string EventType

fun event_type :: "Event \<Rightarrow> EventType" where
  "event_type (Event d t) = t"

text \<open>The log records, without their \<^verbatim>\<open>Timestamp\<close> (the wall clock is not modelled).\<close>

record HTTPLogEntry =
  Method :: string
  Path :: string
  Status :: int
  OK :: bool

record MQTTMessage =
  Topic :: string
  Payload :: string

record Stop =
  Provider :: string
  ProviderID :: string
  Line :: string
  StopID :: string
  Direction :: string

text \<open>
  \<^verbatim>\<open>MockDevice\<close>. The mutex is left out (every function below runs as one atomic block of
  the device's own goroutine). \<open>mqtt_client_set\<close> is \<^verbatim>\<open>d.mqttClient.client != nil\<close>;
  \<open>doneCh_closed\<close> is whether \<^verbatim>\<open>d.doneCh\<close> has been closed.
\<close>

record MockDevice =
  ShortID :: string
  DeviceID :: string
  Email :: string
  Password :: string
  Stop :: Stop
  State :: State
  ErrorMsg :: string
  HTTPLog :: "HTTPLogEntry list"
  MQTTMsgs :: "MQTTMessage list"
  MQTTCount :: int
  mqtt_client_set :: bool
  doneCh_closed :: bool

text \<open>
  What a run of the device can be observed to do, beside the device's own fields:
  \<^item> \<open>eventCh\<close>: the events sent on the channel handed to \<^verbatim>\<open>Run\<close>, oldest first. The
    channel is buffered (\<^verbatim>\<open>cfg.Devices*4\<close> slots in runner.go) and a device sends at most
    two events, so a send is taken never to block;
  \<^item> \<open>calls\<close>: the collaborator operations invoked, oldest first (bookkeeping of the
    model, the source keeps no such list);
  \<^item> \<open>visited\<close>: every value assigned to \<^verbatim>\<open>d.State\<close>, oldest first (bookkeeping too).
\<close>

datatype call =
    HttpDo string string
  | MqttConnect
  | MqttSubscribe string
  | MqttDisconnectCalled
  | MqttPublish string string
  | MqttClose

record world = MockDevice +
  eventCh :: "Event list"
  calls :: "call list"
  visited :: "State list"

subsection \<open>The collaborators and the cancellation signal\<close>

text \<open>
  What \<^verbatim>\<open>doWithTimeout\<close> can meet: the request cannot be built (\<^verbatim>\<open>http.NewRequest\<close> fails,
  nothing is logged), the transport fails (a timeout included; logged with status 0), or a
  response with a status code arrives.
\<close>

datatype http_result = RequestErr string | TransportErr string | Response int

text \<open>A paho token: the wait timed out, the token carries an error, or it succeeded.\<close>

datatype token_result = TokenTimeout | TokenErr string | TokenOK

text \<open>
  The environment of one run. \<open>closed_at\<close> is the moment another goroutine closes
  \<^verbatim>\<open>d.stopCh\<close> (\<open>None\<close>: never), on the clock of the run: moment \<open>2 * i\<close> is the
  \<^verbatim>\<open>select\<close> before step \<open>i\<close> (counted from 0), moment \<open>2 * i + 1\<close> is step \<open>i\<close> in flight,
  and from moment 16 on the eight steps are over. A closed channel stays closed.
\<close>

record env =
  closed_at :: "nat option"
  http :: "string \<Rightarrow> string \<Rightarrow> http_result"
  mqtt_connect :: token_result
  mqtt_subscribe :: token_result
  is_connected :: bool

definition stop_seen :: "env \<Rightarrow> nat \<Rightarrow> bool" where
  "stop_seen e t = (case closed_at e of None \<Rightarrow> False | Some c \<Rightarrow> c \<le> t)"

subsection \<open>Setters (device.go)\<close>

definition setState :: "State \<Rightarrow> world \<Rightarrow> world" where
  "setState s w = w\<lparr>State := s, visited := visited w @ [s]\<rparr>"

definition setError :: "string \<Rightarrow> world \<Rightarrow> world" where
  "setError msg w = w\<lparr>State := StateError, ErrorMsg := msg, visited := visited w @ [StateError]\<rparr>"

definition addHTTPLog :: "HTTPLogEntry \<Rightarrow> world \<Rightarrow> world" where
  "addHTTPLog entry w = w\<lparr>HTTPLog := HTTPLog w @ [entry]\<rparr>"

definition addMQTTMsg :: "MQTTMessage \<Rightarrow> world \<Rightarrow> world" where
  "addMQTTMsg msg w = w\<lparr>MQTTMsgs := MQTTMsgs w @ [msg], MQTTCount := MQTTCount w + 1\<rparr>"

definition send :: "EventType \<Rightarrow> world \<Rightarrow> world" where
  "send t w = w\<lparr>eventCh := eventCh w @ [Event (DeviceID w) t]\<rparr>"

subsection \<open>The backend transport (http.go)\<close>

text \<open>
  \<^verbatim>\<open>doWithTimeout\<close>: the status, the error (\<open>None\<close> is \<^verbatim>\<open>nil\<close>) and the world after the
  call. Request bodies and the timeout value do not reach the result and are left out
  (the bodies are maps of strings, which \<^verbatim>\<open>json.Marshal\<close> always encodes). Every call
  returns: the request carries a timeout.
\<close>

definition doWithTimeout :: "env \<Rightarrow> string \<Rightarrow> string \<Rightarrow> world \<Rightarrow> int \<times> string option \<times> world" where
  "doWithTimeout e method path w =
     (let w1 = w\<lparr>calls := calls w @ [HttpDo method path]\<rparr> in
      case http e method path of
        RequestErr m \<Rightarrow> (0, Some m, w1)
      | TransportErr m \<Rightarrow>
          (0, Some m, addHTTPLog \<lparr>Method = method, Path = path, Status = 0, OK = False\<rparr> w1)
      | Response st \<Rightarrow>
          (st, None,
           addHTTPLog \<lparr>Method = method, Path = path, Status = st, OK = (200 \<le> st \<and> st < 300)\<rparr> w1))"

text \<open>
  The shape shared by the request methods: an error of the call is returned as it is, a
  status outside \<open>accepted\<close> becomes \<^verbatim>\<open>fmt.Errorf("<what> returned %d", status)\<close>.
\<close>

definition check_status :: "string \<Rightarrow> int list \<Rightarrow> int \<times> string option \<times> world \<Rightarrow> string option \<times> world" where
  "check_status what accepted r =
     (case r of (status, err, w) \<Rightarrow>
        (case err of
           Some m \<Rightarrow> (Some m, w)
         | None \<Rightarrow>
             if status \<notin> set accepted then (Some (what @ '' returned '' @ show_int status), w)
             else (None, w)))"

text \<open>
  The path of the two configuration requests. \<^verbatim>\<open>url.PathEscape\<close> leaves a device id
  unchanged: it is "loadtest-" and a UUID.
\<close>

definition config_path :: "world \<Rightarrow> string" where
  "config_path w = ''/device/'' @ DeviceID w @ ''/config''"

definition registerDevice :: "env \<Rightarrow> world \<Rightarrow> string option \<times> world" where
  "registerDevice e w =
     check_status ''register device'' [200, 201]
       (doWithTimeout e ''POST'' ''/device/register'' (setState StateRegistering w))"

definition registerUser :: "env \<Rightarrow> world \<Rightarrow> string option \<times> world" where
  "registerUser e w =
     check_status ''register user'' [200, 201] (doWithTimeout e ''POST'' ''/user/register'' w)"

definition login :: "env \<Rightarrow> world \<Rightarrow> string option \<times> world" where
  "login e w =
     check_status ''login'' [200, 201]
       (doWithTimeout e ''POST'' ''/auth/login'' (setState StateAuthenticating w))"

definition linkDevice :: "env \<Rightarrow> world \<Rightarrow> string option \<times> world" where
  "linkDevice e w =
     check_status ''link device'' [200, 201]
       (doWithTimeout e ''POST'' ''/user/device/link'' (setState StateLinking w))"

definition setConfig :: "env \<Rightarrow> world \<Rightarrow> string option \<times> world" where
  "setConfig e w =
     check_status ''set config'' [200, 201]
       (doWithTimeout e ''POST'' (config_path w) (setState StateConfiguring w))"

definition getConfig :: "env \<Rightarrow> world \<Rightarrow> string option \<times> world" where
  "getConfig e w = check_status ''get config'' [200] (doWithTimeout e ''GET'' (config_path w) w)"

definition logout :: "env \<Rightarrow> world \<Rightarrow> string option \<times> world" where
  "logout e w = check_status ''logout'' [200, 204] (doWithTimeout e ''POST'' ''/auth/logout'' w)"

subsection \<open>The broker transport (the mqtt client of package device)\<close>

definition presenceTopic :: "world \<Rightarrow> string" where
  "presenceTopic w = ''device/'' @ DeviceID w @ ''/presence''"

definition connect :: "env \<Rightarrow> world \<Rightarrow> string option \<times> world" where
  "connect e w =
     (let w1 = w\<lparr>calls := calls w @ [MqttConnect]\<rparr> in
      case mqtt_connect e of
        TokenTimeout \<Rightarrow> (Some ''mqtt connect timeout'', w1)
      | TokenErr m \<Rightarrow> (Some (''mqtt connect: '' @ m), w1)
      | TokenOK \<Rightarrow> (None, w1\<lparr>mqtt_client_set := True\<rparr>))"

definition subscribe :: "env \<Rightarrow> world \<Rightarrow> string option \<times> world" where
  "subscribe e w =
     (if \<not> mqtt_client_set w then (Some ''mqtt not connected'', w)
      else
        let w1 = w\<lparr>calls := calls w @ [MqttSubscribe (''/device/'' @ DeviceID w @ ''/commands'')]\<rparr> in
        case mqtt_subscribe e of
          TokenTimeout \<Rightarrow> (Some ''mqtt subscribe timeout'', w1)
        | TokenErr m \<Rightarrow> (Some m, w1)
        | TokenOK \<Rightarrow> (None, w1))"

text \<open>
  \<^verbatim>\<open>disconnect\<close> publishes "offline" and closes only when the client exists and reports
  itself connected. The wait on the publish token has no timeout in the source; it is
  taken to end.
\<close>

definition disconnect :: "env \<Rightarrow> world \<Rightarrow> world" where
  "disconnect e w =
     (let w1 = w\<lparr>calls := calls w @ [MqttDisconnectCalled]\<rparr> in
      if mqtt_client_set w \<and> is_connected e
      then w1\<lparr>calls := calls w1 @ [MqttPublish (presenceTopic w) ''offline'', MqttClose]\<rparr>
      else w1)"

subsection \<open>The lifecycle (device.go, Run and cleanup)\<close>

type_synonym step = "string \<times> (world \<Rightarrow> string option \<times> world)"

definition steps :: "env \<Rightarrow> step list" where
  "steps e =
     [(''register device'', registerDevice e),
      (''register user'', registerUser e),
      (''login'', login e),
      (''link device'', linkDevice e),
      (''set config'', setConfig e),
      (''get config'', getConfig e),
      (''connect mqtt'', connect e),
      (''subscribe mqtt'', subscribe e)]"

text \<open>
  The \<^verbatim>\<open>for\<close> loop of \<^verbatim>\<open>Run\<close> from step \<open>i\<close> on. The flag says whether the loop ran to
  its end (\<open>True\<close>) or \<^verbatim>\<open>Run\<close> returned from inside it (\<open>False\<close>).
\<close>

fun run_steps :: "env \<Rightarrow> nat \<Rightarrow> step list \<Rightarrow> world \<Rightarrow> bool \<times> world" where
  "run_steps e i [] w = (True, w)"
| "run_steps e i (s # rest) w =
     (if stop_seen e (2 * i) then (False, setState StateDone w)
      else
        case snd s w of
          (Some err, w1) \<Rightarrow> (False, send EventError (setError (fst s @ '': '' @ err) w1))
        | (None, w1) \<Rightarrow> run_steps e (Suc i) rest w1)"

definition cleanup :: "env \<Rightarrow> world \<Rightarrow> world" where
  "cleanup e w = send EventDone (setState StateDone (disconnect e (snd (logout e w))))"

text \<open>
  \<^verbatim>\<open>Run\<close> either returns (its deferred \<^verbatim>\<open>close(d.doneCh)\<close> has run) or stays parked on
  \<^verbatim>\<open><-d.stopCh\<close> for ever, when nobody closes the channel.
\<close>

datatype run_result = Returned world | Parked world

definition Run :: "env \<Rightarrow> world \<Rightarrow> run_result" where
  "Run e w =
     (case run_steps e 0 (steps e) w of
        (False, w1) \<Rightarrow> Returned (w1\<lparr>doneCh_closed := True\<rparr>)
      | (True, w1) \<Rightarrow>
          let w2 = send EventActive (w1\<lparr>State := StateActive, visited := visited w1 @ [StateActive]\<rparr>) in
          if closed_at e = None then Parked w2
          else Returned ((cleanup e w2)\<lparr>doneCh_closed := True\<rparr>))"

text \<open>\<^verbatim>\<open>device.New\<close>, the two fresh UUIDs taken as arguments.\<close>

definition device_New :: "string \<Rightarrow> string \<Rightarrow> Stop \<Rightarrow> world" where
  "device_New uid password stop =
     \<lparr>ShortID = take 8 uid, DeviceID = ''loadtest-'' @ uid,
      Email = ''loadtest-'' @ uid @ ''@test.invalid'', Password = password,
      Stop = stop, State = StateInit, ErrorMsg = [], HTTPLog = [], MQTTMsgs = [],
      MQTTCount = 0, mqtt_client_set = False, doneCh_closed = False,
      eventCh = [], calls = [], visited = [StateInit]\<rparr>"

subsection \<open>Vocabulary for stating properties of a run\<close>

text \<open>
  \<open>run_prefix ss w\<close>: the world after the steps \<open>ss\<close> have run one after the other and
  each returned \<^verbatim>\<open>nil\<close>; \<open>None\<close> when one of them returns an error.
\<close>

fun run_prefix :: "step list \<Rightarrow> world \<Rightarrow> world option" where
  "run_prefix [] w = Some w"
| "run_prefix (s # rest) w =
     (case snd s w of (Some err, w1) \<Rightarrow> None | (None, w1) \<Rightarrow> run_prefix rest w1)"

definition status_ok :: "env \<Rightarrow> string \<Rightarrow> string \<Rightarrow> int list \<Rightarrow> bool" where
  "status_ok e method path accepted =
     (case http e method path of Response st \<Rightarrow> st \<in> set accepted | _ \<Rightarrow> False)"

text \<open>The backend and the broker answer every one of the eight steps with success.\<close>

definition all_steps_succeed :: "env \<Rightarrow> world \<Rightarrow> bool" where
  "all_steps_succeed e w \<longleftrightarrow>
     status_ok e ''POST'' ''/device/register'' [200, 201] \<and>
     status_ok e ''POST'' ''/user/register'' [200, 201] \<and>
     status_ok e ''POST'' ''/auth/login'' [200, 201] \<and>
     status_ok e ''POST'' ''/user/device/link'' [200, 201] \<and>
     status_ok e ''POST'' (config_path w) [200, 201] \<and>
     status_ok e ''GET'' (config_path w) [200] \<and>
     mqtt_connect e = TokenOK \<and> mqtt_subscribe e = TokenOK"

fun returned :: "run_result \<Rightarrow> bool" where
  "returned (Returned w) = True"
| "returned (Parked w) = False"

fun final :: "run_result \<Rightarrow> world" where
  "final (Returned w) = w"
| "final (Parked w) = w"

text \<open>The calls of the cleanup sequence: the logout request, then the broker disconnect.\<close>

definition cleanup_calls :: "env \<Rightarrow> world \<Rightarrow> call list" where
  "cleanup_calls e w =
     [HttpDo ''POST'' ''/auth/logout'', MqttDisconnectCalled] @
     (if is_connected e then [MqttPublish (presenceTopic w) ''offline'', MqttClose] else [])"

text \<open>Sample inputs: a backend and broker that accept everything, and a fresh device.\<close>

definition env_ok :: "nat option \<Rightarrow> env" where
  "env_ok c =
     \<lparr>closed_at = c, http = (\<lambda>method path. Response 200), mqtt_connect = TokenOK,
      mqtt_subscribe = TokenOK, is_connected = True\<rparr>"

definition env_login_500 :: env where
  "env_login_500 =
     (env_ok None)\<lparr>http := (\<lambda>method path. if path = ''/auth/login'' then Response 500 else Response 200)\<rparr>"


definition dev0 :: world where
  "dev0 = device_New ''0f8fad5b-d9cb-469f-a165-70867728950e'' ''secret''
     \<lparr>Provider = ''mta'', ProviderID = ''mta-subway'', Line = ''A'', StopID = ''A19N'', Direction = []\<rparr>"

section \<open>Package providers (stops.go)\<close>

text \<open>The curated stops, a Go map from the provider key to its list.\<close>

definition mk_stop :: "string \<Rightarrow> string \<Rightarrow> string \<Rightarrow> string \<Rightarrow> string \<Rightarrow> Stop" where
  "mk_stop p pid l s d = \<lparr>Provider = p, ProviderID = pid, Line = l, StopID = s, Direction = d\<rparr>"

definition stopsByProvider :: "string \<rightharpoonup> Stop list" where
  "stopsByProvider = map_of
     [(''mta'',
        [mk_stop ''mta'' ''mta-subway'' ''A'' ''A19N'' [], mk_stop ''mta'' ''mta-subway'' ''A'' ''A19S'' [],
         mk_stop ''mta'' ''mta-subway'' ''L'' ''L03N'' [], mk_stop ''mta'' ''mta-subway'' ''L'' ''L03S'' [],
         mk_stop ''mta'' ''mta-subway'' ''1'' ''127N'' [], mk_stop ''mta'' ''mta-subway'' ''1'' ''127S'' [],
         mk_stop ''mta'' ''mta-subway'' ''N'' ''N02N'' [], mk_stop ''mta'' ''mta-subway'' ''N'' ''N02S'' []]),
      (''cta'',
        [mk_stop ''cta'' ''cta-subway'' ''Red'' ''40900'' ''N'', mk_stop ''cta'' ''cta-subway'' ''Red'' ''40900'' ''S'',
         mk_stop ''cta'' ''cta-subway'' ''Blue'' ''40380'' ''S'', mk_stop ''cta'' ''cta-subway'' ''Blue'' ''40380'' ''N'',
         mk_stop ''cta'' ''cta-subway'' ''Brn'' ''40730'' ''N'', mk_stop ''cta'' ''cta-subway'' ''Brn'' ''40730'' ''S'',
         mk_stop ''cta'' ''cta-subway'' ''G'' ''40280'' ''S'', mk_stop ''cta'' ''cta-subway'' ''G'' ''40280'' ''N'']),
      (''mbta'',
        [mk_stop ''mbta'' ''mbta'' ''Red'' ''place-pktrm'' ''1'', mk_stop ''mbta'' ''mbta'' ''Red'' ''place-pktrm'' ''0'',
         mk_stop ''mbta'' ''mbta'' ''Orange'' ''place-dwnxg'' ''0'', mk_stop ''mbta'' ''mbta'' ''Orange'' ''place-dwnxg'' ''1'',
         mk_stop ''mbta'' ''mbta'' ''Green-B'' ''place-kenmore'' ''0'', mk_stop ''mbta'' ''mbta'' ''Green-B'' ''place-kenmore'' ''1'']),
      (''septa'',
        [mk_stop ''septa'' ''septa-rail'' ''NHSL'' ''PENN_CENTER'' ''N'', mk_stop ''septa'' ''septa-rail'' ''NHSL'' ''PENN_CENTER'' ''S'',
         mk_stop ''septa'' ''septa-rail'' ''PAOLI'' ''30TH_STREET'' ''E'', mk_stop ''septa'' ''septa-rail'' ''PAOLI'' ''30TH_STREET'' ''W''])]"

text \<open>
  \<^verbatim>\<open>PickStop\<close>, with the table it reads and the number \<open>r\<close> that \<^verbatim>\<open>rand.Intn\<close> draws as
  arguments (\<^verbatim>\<open>rand.Intn(len)\<close> lies in \<open>[0, len)\<close>, hence the \<open>mod\<close>). \<open>None\<close> is the
  result \<^verbatim>\<open>(Stop{}, false)\<close>.
\<close>

definition PickStop_in :: "(string \<rightharpoonup> Stop list) \<Rightarrow> string \<Rightarrow> nat \<Rightarrow> Stop option" where
  "PickStop_in tbl provider r =
     (case tbl provider of
        None \<Rightarrow> None
      | Some stops \<Rightarrow> if length stops = 0 then None else Some (stops ! (r mod length stops)))"

definition PickStop :: "string \<Rightarrow> nat \<Rightarrow> Stop option" where
  "PickStop provider r = PickStop_in stopsByProvider provider r"

text \<open>Go's \<^verbatim>\<open>/\<close> on integers truncates towards zero.\<close>

definition go_quot :: "int \<Rightarrow> int \<Rightarrow> int" where
  "go_quot a b = (if (a < 0) = (b < 0) then \<bar>a\<bar> div \<bar>b\<bar> else - (\<bar>a\<bar> div \<bar>b\<bar>))"

text \<open>
  The choices \<^verbatim>\<open>AssignProviders\<close> leaves to the runtime. Go fixes no order for ranging
  over a map, and each \<^verbatim>\<open>range\<close> statement can see another one: \<open>first_order\<close> is the
  order of the keys in the first loop, \<open>fill_order j\<close> the order in pass \<open>j\<close> of the
  remainder loop, and \<open>shuffle\<close> the permutation \<^verbatim>\<open>rand.Shuffle\<close> applies.
\<close>

record choices =
  first_order :: "string list"
  fill_order :: "nat \<Rightarrow> string list"
  shuffle :: "string list \<Rightarrow> string list"

definition valid_choices :: "(string \<rightharpoonup> int) \<Rightarrow> choices \<Rightarrow> bool" where
  "valid_choices distr ch \<longleftrightarrow>
     distinct (first_order ch) \<and> set (first_order ch) = dom distr \<and>
     (\<forall>j. distinct (fill_order ch j) \<and> set (fill_order ch j) = dom distr) \<and>
     (\<forall>xs. mset (shuffle ch xs) = mset xs)"

text \<open>The first loop: \<^verbatim>\<open>count := (pct * n) / 100\<close> copies of every provider.\<close>

fun weighted_list :: "int \<Rightarrow> (string \<rightharpoonup> int) \<Rightarrow> string list \<Rightarrow> string list" where
  "weighted_list n distr [] = []"
| "weighted_list n distr (provider # rest) =
     (case distr provider of
        None \<Rightarrow> weighted_list n distr rest
      | Some pct \<Rightarrow> replicate (nat (go_quot (pct * n) 100)) provider @ weighted_list n distr rest)"

text \<open>One pass of the inner \<^verbatim>\<open>for provider := range dist\<close> of the remainder loop.\<close>

fun fill_pass :: "int \<Rightarrow> string list \<Rightarrow> string list \<Rightarrow> string list" where
  "fill_pass n [] weighted = weighted"
| "fill_pass n (provider # rest) weighted =
     (if int (length (weighted @ [provider])) \<ge> n then weighted @ [provider]
      else fill_pass n rest (weighted @ [provider]))"

text \<open>
  The outer \<^verbatim>\<open>for len(weighted) < n\<close>. With an empty map a pass appends nothing and the
  loop never exits: the result is then \<open>None\<close>.
\<close>

partial_function (option) fill :: "int \<Rightarrow> (nat \<Rightarrow> string list) \<Rightarrow> nat \<Rightarrow> string list \<Rightarrow> string list option" where
  "fill n ords j weighted =
     (if int (length weighted) < n then fill n ords (Suc j) (fill_pass n (ords j) weighted)
      else Some weighted)"

text \<open>
  \<^verbatim>\<open>AssignProviders\<close>. \<^verbatim>\<open>make([]string, 0, n)\<close> panics for a negative \<open>n\<close>. The product
  \<^verbatim>\<open>pct * n\<close> is computed without wrap-around: \<open>n\<close> is the length of a slice that is
  allocated, and \<open>pct\<close> a percentage.
\<close>

definition AssignProviders :: "int \<Rightarrow> (string \<rightharpoonup> int) \<Rightarrow> choices \<Rightarrow> (go_error + string list) option" where
  "AssignProviders n distr ch =
     (if n < 0 then Some (Inl (Panic ''makeslice: cap out of range''))
      else
        case fill n (fill_order ch) 0 (weighted_list n distr (first_order ch)) of
          None \<Rightarrow> None
        | Some weighted \<Rightarrow> Some (Inr (take (nat n) (shuffle ch weighted))))"

text \<open>
  Vocabulary for the properties: the number of copies the first loop makes of a key, and
  what the caller guarantees about the percentages (none is negative, their sum is 100).
\<close>

definition copies :: "int \<Rightarrow> (string \<rightharpoonup> int) \<Rightarrow> string \<Rightarrow> nat" where
  "copies n distr k = (case distr k of None \<Rightarrow> 0 | Some pct \<Rightarrow> nat (go_quot (pct * n) 100))"

definition valid_distribution :: "(string \<rightharpoonup> int) \<Rightarrow> bool" where
  "valid_distribution distr \<longleftrightarrow>
     finite (dom distr) \<and> (\<forall>k pct. distr k = Some pct \<longrightarrow> 0 \<le> pct) \<and>
     (\<Sum>k\<in>dom distr. the (distr k)) = 100"

text \<open>Sample inputs: two categories of 50 percent each, and two ways to range over them.\<close>

definition half_half :: "string \<rightharpoonup> int" where
  "half_half = [''cta'' \<mapsto> 50, ''mta'' \<mapsto> 50]"

definition cta_first :: choices where
  "cta_first = \<lparr>first_order = [''cta'', ''mta''], fill_order = (\<lambda>j. [''cta'', ''mta'']), shuffle = rev\<rparr>"

definition mta_first :: choices where
  "mta_first = \<lparr>first_order = [''cta'', ''mta''], fill_order = (\<lambda>j. [''mta'', ''cta'']), shuffle = rev\<rparr>"

definition cta_first_alt :: choices where
  "cta_first_alt = \<lparr>first_order = [''mta'', ''cta''], fill_order = (\<lambda>j. [''cta'', ''mta'']), shuffle = (\<lambda>xs. xs)\<rparr>"

section \<open>Package runner (runner.go)\<close>

text \<open>
  \<^verbatim>\<open>Config\<close>: the two fields that decide what \<^verbatim>\<open>New\<close> builds. The server and broker
  addresses are handed to the devices unread.
\<close>

record Config =
  Devices :: int
  Providers :: "string \<rightharpoonup> int"

text \<open>
  \<^verbatim>\<open>Stats\<close>. The counters are \<^verbatim>\<open>atomic.Int64\<close>, the window is \<^verbatim>\<open>[5]int64\<close>: 64-bit
  words that wrap, read as signed numbers by \<open>sint\<close>. \<^verbatim>\<open>windowIdx\<close> counts the ticks, one
  a second, and is taken not to wrap.
\<close>

record Stats =
  TotalDevices :: int
  ActiveDevices :: "64 word"
  ErrorCount :: "64 word"
  MQTTTotal :: "64 word"
  mqttWindow :: "64 word list"
  windowIdx :: nat

text \<open>
  \<^verbatim>\<open>MsgsPerSec\<close>: the loop adds the five slots up in an \<^verbatim>\<open>int64\<close>; the quotient
  \<^verbatim>\<open>float64(sum) / 5.0\<close> is taken as the exact quotient (the rounding of \<^verbatim>\<open>float64\<close> is
  not modelled).
\<close>

definition window_sum :: "Stats \<Rightarrow> 64 word" where
  "window_sum s = foldl (\<lambda>sum v. sum + v) 0 (mqttWindow s)"

definition MsgsPerSec :: "Stats \<Rightarrow> real" where
  "MsgsPerSec s = real_of_int (sint (window_sum s)) / 5"

record Runner =
  Cfg :: Config
  Devices :: "world list"
  Stats :: Stats
  EventCh :: "Event list"
  StopCh :: bool











subsection \<open>The event loop\<close>

text \<open>
  What the \<^verbatim>\<open>select\<close> of \<^verbatim>\<open>processEvents\<close> can receive: an event, the closing of the
  event channel, a tick (with the value of \<^verbatim>\<open>GetMQTTCount\<close> of every device at that
  moment, as \<^verbatim>\<open>int64\<close>), or the closing of \<^verbatim>\<open>StopCh\<close>.
\<close>

datatype loop_input = Recv Event | EventChClosed | TickFired "64 word list" | StopChClosed

text \<open>The loop's state: the shared \<^verbatim>\<open>Stats\<close> and the local \<^verbatim>\<open>lastTotal\<close>.\<close>

record loop_state =
  stats :: Stats
  lastTotal :: "64 word"

definition on_event :: "Event \<Rightarrow> Stats \<Rightarrow> Stats" where
  "on_event ev s =
     (case event_type ev of
        EventActive \<Rightarrow> s\<lparr>ActiveDevices := ActiveDevices s + 1\<rparr>
      | EventError \<Rightarrow> s\<lparr>ErrorCount := ErrorCount s + 1\<rparr>
      | EventDone \<Rightarrow> if 0 <s ActiveDevices s then s\<lparr>ActiveDevices := ActiveDevices s + (- 1)\<rparr> else s
      | EventMQTT \<Rightarrow> s)"

definition on_tick :: "64 word list \<Rightarrow> loop_state \<Rightarrow> loop_state" where
  "on_tick counts st =
     (let total = foldl (\<lambda>total c. total + c) 0 counts;
          delta = total - lastTotal st;
          s = stats st
      in \<lparr>stats = s\<lparr>MQTTTotal := total,
                     mqttWindow := (mqttWindow s)[windowIdx s mod 5 := delta],
                     windowIdx := windowIdx s + 1\<rparr>,
          lastTotal = total\<rparr>)"

text \<open>
  \<^verbatim>\<open>processEvents\<close> on the inputs it receives, in the order it receives them. Forwarding to
  the display (\<^verbatim>\<open>program.Send\<close>) is left out. When the inputs run out the loop is waiting
  in its \<^verbatim>\<open>select\<close>, and the state is the one it has reached.
\<close>

fun processEvents :: "loop_input list \<Rightarrow> loop_state \<Rightarrow> loop_state" where
  "processEvents [] st = st"
| "processEvents (Recv ev # rest) st = processEvents rest (st\<lparr>stats := on_event ev (stats st)\<rparr>)"
| "processEvents (EventChClosed # rest) st = st"
| "processEvents (TickFired counts # rest) st = processEvents rest (on_tick counts st)"
| "processEvents (StopChClosed # rest) st = st"

definition loop_start :: "int \<Rightarrow> loop_state" where
  "loop_start n =
     \<lparr>stats = \<lparr>TotalDevices = n, ActiveDevices = 0, ErrorCount = 0, MQTTTotal = 0,
               mqttWindow = replicate 5 0, windowIdx = 0\<rparr>,
      lastTotal = 0\<rparr>"

text \<open>
  The message deltas of the ticks among the inputs, oldest first, as the loop computes
  them: each tick's total minus the total of the tick before (0 before the first).
\<close>

fun deltas :: "64 word \<Rightarrow> loop_input list \<Rightarrow> 64 word list" where
  "deltas prev [] = []"
| "deltas prev (TickFired counts # rest) =
     (foldl (\<lambda>total c. total + c) 0 counts - prev) # deltas (foldl (\<lambda>total c. total + c) 0 counts) rest"
| "deltas prev (Recv ev # rest) = deltas prev rest"
| "deltas prev (EventChClosed # rest) = []"
| "deltas prev (StopChClosed # rest) = []"

text \<open>Sample inputs: a became-done that no became-active precedes, and two series of ticks.\<close>

definition done_first :: "loop_input list" where
  "done_first = [Recv (Event ''a'' EventDone), Recv (Event ''b'' EventActive), Recv (Event ''b'' EventDone),
                 Recv (Event ''c'' EventDone)]"

definition two_ticks :: "loop_input list" where
  "two_ticks = [TickFired [3, 0], Recv (Event ''a'' EventActive), TickFired [4, 4]]"

definition seven_ticks :: "loop_input list" where
  "seven_ticks = [TickFired [10], TickFired [20], TickFired [30], TickFired [40], TickFired [50],
                  TickFired [60], TickFired [65]]"

subsection \<open>Shutdown\<close>

text \<open>\<^verbatim>\<open>close(ch)\<close> on a channel that is closed (\<open>True\<close>) or open (\<open>False\<close>).\<close>

definition close_chan :: "bool \<Rightarrow> go_error + bool" where
  "close_chan is_closed = (if is_closed then Inl (Panic ''close of closed channel'') else Inr True)"

text \<open>
  \<^verbatim>\<open>MockDevice.Shutdown\<close> on the device's \<^verbatim>\<open>stopCh\<close>, run without interruption: the
  \<^verbatim>\<open>select\<close> takes the receive when the channel is closed, the \<^verbatim>\<open>default\<close> otherwise.
\<close>

definition device_Shutdown :: "bool \<Rightarrow> go_error + bool" where
  "device_Shutdown stopCh = (if stopCh then Inr stopCh else close_chan stopCh)"

text \<open>The channels a shutdown touches: \<^verbatim>\<open>r.StopCh\<close> and the \<^verbatim>\<open>stopCh\<close> of every device.\<close>

record channels =
  runner_stop :: bool
  device_stops :: "bool list"

fun shutdown_devices :: "bool list \<Rightarrow> go_error + bool list" where
  "shutdown_devices [] = Inr []"
| "shutdown_devices (d # ds) =
     (case device_Shutdown d of
        Inl err \<Rightarrow> Inl err
      | Inr d' \<Rightarrow> (case shutdown_devices ds of Inl err \<Rightarrow> Inl err | Inr ds' \<Rightarrow> Inr (d' # ds')))"

definition runner_Shutdown :: "channels \<Rightarrow> go_error + channels" where
  "runner_Shutdown r =
     (case (if runner_stop r then Inr (runner_stop r) else close_chan (runner_stop r)) of
        Inl err \<Rightarrow> Inl err
      | Inr s \<Rightarrow>
          (case shutdown_devices (device_stops r) of
             Inl err \<Rightarrow> Inl err
           | Inr ds \<Rightarrow> Inr \<lparr>runner_stop = s, device_stops = ds\<rparr>))"

text \<open>
  Two goroutines. A goroutine can be preempted between any two operations on a channel,
  so a call of \<^verbatim>\<open>Shutdown\<close> is a sequence of atomic operations: for every channel in turn
  the \<^verbatim>\<open>select\<close>, and the \<^verbatim>\<open>close\<close> when the \<^verbatim>\<open>select\<close> took its \<^verbatim>\<open>default\<close>. A thread
  is the list of channels it still has to shut (by index: 0 is \<^verbatim>\<open>r.StopCh\<close>, \<open>i + 1\<close> the
  \<^verbatim>\<open>stopCh\<close> of device \<open>i\<close>) and whether it stands between the \<^verbatim>\<open>select\<close> and the
  \<^verbatim>\<open>close\<close> of the first of them.
\<close>

record thread =
  todo :: "nat list"
  at_close :: bool

datatype system = Live "bool list" "thread list" | Crashed

fun thread_step :: "bool list \<Rightarrow> thread \<Rightarrow> (bool list \<times> thread) option" where
  "thread_step chans t =
     (case todo t of
        [] \<Rightarrow> Some (chans, t)
      | c # cs \<Rightarrow>
          if \<not> at_close t then
            (if chans ! c then Some (chans, \<lparr>todo = cs, at_close = False\<rparr>)
             else Some (chans, \<lparr>todo = c # cs, at_close = True\<rparr>))
          else
            (case close_chan (chans ! c) of
               Inl err \<Rightarrow> None
             | Inr v \<Rightarrow> Some (chans[c := v], \<lparr>todo = cs, at_close = False\<rparr>)))"

text \<open>\<open>schedule\<close>: which thread runs its next atomic operation, one entry per operation.\<close>

fun run_schedule :: "nat list \<Rightarrow> system \<Rightarrow> system" where
  "run_schedule [] s = s"
| "run_schedule (i # rest) Crashed = Crashed"
| "run_schedule (i # rest) (Live chans ts) =
     (if i \<ge> length ts then run_schedule rest (Live chans ts)
      else
        case thread_step chans (ts ! i) of
          None \<Rightarrow> Crashed
        | Some (chans', t') \<Rightarrow> run_schedule rest (Live chans' (ts[i := t'])))"

definition device_Shutdown_thread :: "nat \<Rightarrow> thread" where
  "device_Shutdown_thread i = \<lparr>todo = [Suc i], at_close = False\<rparr>"

definition runner_Shutdown_thread :: "nat \<Rightarrow> thread" where
  "runner_Shutdown_thread n_devices = \<lparr>todo = [0 ..< Suc n_devices], at_close = False\<rparr>"

section \<open>Properties of the device lifecycle\<close>

subsection \<open>The step loop\<close>

lemma stop_seen_mono: "stop_seen e t \<Longrightarrow> t \<le> t' \<Longrightarrow> stop_seen e t'"
  by (auto simp: stop_seen_def split: option.splits)

lemma run_steps_all_ok:
  "run_prefix ss w = Some w' \<Longrightarrow> \<not> stop_seen e (2 * (i + length ss) - 2) \<Longrightarrow>
   run_steps e i ss w = (True, w')"
proof (induction ss arbitrary: i w)
  case Nil
  then show ?case by simp
next
  case (Cons s ss)
  from Cons.prems(2) have now: "\<not> stop_seen e (2 * i)"
    using stop_seen_mono [of e "2 * i" "2 * (i + length (s # ss)) - 2"] by auto
  from Cons.prems(1) obtain w1 where s: "snd s w = (None, w1)" and rest: "run_prefix ss w1 = Some w'"
    by (auto split: prod.splits option.splits)
  from Cons.prems(2) have "\<not> stop_seen e (2 * (Suc i + length ss) - 2)" by simp
  with Cons.IH [OF rest] have "run_steps e (Suc i) ss w1 = (True, w')" by blast
  with now s show ?case by simp
qed

lemma run_steps_fail:
  "run_prefix pre w = Some wi \<Longrightarrow> snd s wi = (Some err, wfail) \<Longrightarrow>
   \<not> stop_seen e (2 * (i + length pre)) \<Longrightarrow>
   run_steps e i (pre @ s # post) w = (False, send EventError (setError (fst s @ '': '' @ err) wfail))"
proof (induction pre arbitrary: i w)
  case Nil
  then show ?case by simp
next
  case (Cons p pre)
  from Cons.prems(3) have now: "\<not> stop_seen e (2 * i)"
    using stop_seen_mono [of e "2 * i" "2 * (i + length (p # pre))"] by auto
  from Cons.prems(1) obtain w1 where p: "snd p w = (None, w1)" and rest: "run_prefix pre w1 = Some wi"
    by (auto split: prod.splits option.splits)
  from Cons.prems(3) have "\<not> stop_seen e (2 * (Suc i + length pre))" by simp
  from Cons.IH [OF rest Cons.prems(2) this] now p show ?case by simp
qed

lemma run_steps_cancel:
  "run_prefix pre w = Some wk \<Longrightarrow> pre \<noteq> [] \<longrightarrow> \<not> stop_seen e (2 * (i + length pre) - 2) \<Longrightarrow>
   stop_seen e (2 * (i + length pre)) \<Longrightarrow> post \<noteq> [] \<Longrightarrow>
   run_steps e i (pre @ post) w = (False, setState StateDone wk)"
proof (induction pre arbitrary: i w)
  case Nil
  then obtain s rest where "post = s # rest" by (cases post) auto
  with Nil show ?case by simp
next
  case (Cons p pre)
  from Cons.prems(2) have later: "\<not> stop_seen e (2 * (i + length pre))" by simp
  then have now: "\<not> stop_seen e (2 * i)"
    using stop_seen_mono [of e "2 * i" "2 * (i + length pre)"] by auto
  from Cons.prems(1) obtain w1 where p: "snd p w = (None, w1)" and rest: "run_prefix pre w1 = Some wk"
    by (auto split: prod.splits option.splits)
  from later have a: "pre \<noteq> [] \<longrightarrow> \<not> stop_seen e (2 * (Suc i + length pre) - 2)"
    using stop_seen_mono [of e "2 * (Suc i + length pre) - 2" "2 * (i + length pre)"] by auto
  from Cons.prems(3) have b: "stop_seen e (2 * (Suc i + length pre))" by simp
  from Cons.IH [OF rest a b Cons.prems(4)] now p show ?case by simp
qed

lemma http_step_frame:
  "check_status what acc (doWithTimeout e m p w) = (r, w') \<Longrightarrow>
   eventCh w' = eventCh w \<and> DeviceID w' = DeviceID w \<and> visited w' = visited w \<and>
   mqtt_client_set w' = mqtt_client_set w \<and> State w' = State w \<and>
   calls w' = calls w @ [HttpDo m p]"
  by (auto simp: check_status_def doWithTimeout_def addHTTPLog_def Let_def
      split: http_result.splits if_splits)

lemma http_step_ok:
  "status_ok e m p acc \<Longrightarrow> fst (check_status what acc (doWithTimeout e m p w)) = None"
  by (auto simp: status_ok_def check_status_def doWithTimeout_def Let_def split: http_result.splits)

lemma http_step_bad_status:
  "http e m p = Response st \<Longrightarrow> st \<notin> set acc \<Longrightarrow>
   fst (check_status what acc (doWithTimeout e m p w)) = Some (what @ '' returned '' @ show_int st)"
  by (simp add: check_status_def doWithTimeout_def Let_def)

lemma setState_fields [simp]:
  "eventCh (setState s w) = eventCh w" "DeviceID (setState s w) = DeviceID w"
  "visited (setState s w) = visited w @ [s]" "mqtt_client_set (setState s w) = mqtt_client_set w"
  "State (setState s w) = s" "calls (setState s w) = calls w" "HTTPLog (setState s w) = HTTPLog w"
  "ErrorMsg (setState s w) = ErrorMsg w"
  by (simp_all add: setState_def)

lemma send_fields [simp]:
  "eventCh (send t w) = eventCh w @ [Event (DeviceID w) t]" "DeviceID (send t w) = DeviceID w"
  "visited (send t w) = visited w" "mqtt_client_set (send t w) = mqtt_client_set w"
  "State (send t w) = State w" "calls (send t w) = calls w" "HTTPLog (send t w) = HTTPLog w"
  "ErrorMsg (send t w) = ErrorMsg w"
  by (simp_all add: send_def)

lemma setError_fields [simp]:
  "eventCh (setError m w) = eventCh w" "DeviceID (setError m w) = DeviceID w"
  "visited (setError m w) = visited w @ [StateError]" "mqtt_client_set (setError m w) = mqtt_client_set w"
  "State (setError m w) = StateError" "calls (setError m w) = calls w" "HTTPLog (setError m w) = HTTPLog w"
  "ErrorMsg (setError m w) = m"
  by (simp_all add: setError_def)

lemma registerDevice_frame:
  "registerDevice e w = (r, w') \<Longrightarrow>
   eventCh w' = eventCh w \<and> DeviceID w' = DeviceID w \<and> mqtt_client_set w' = mqtt_client_set w \<and>
   visited w' = visited w @ [StateRegistering]"
  unfolding registerDevice_def by (drule http_step_frame) simp

lemma registerUser_frame:
  "registerUser e w = (r, w') \<Longrightarrow>
   eventCh w' = eventCh w \<and> DeviceID w' = DeviceID w \<and> mqtt_client_set w' = mqtt_client_set w \<and>
   visited w' = visited w"
  unfolding registerUser_def by (drule http_step_frame) simp

lemma login_frame:
  "login e w = (r, w') \<Longrightarrow>
   eventCh w' = eventCh w \<and> DeviceID w' = DeviceID w \<and> mqtt_client_set w' = mqtt_client_set w \<and>
   visited w' = visited w @ [StateAuthenticating]"
  unfolding login_def by (drule http_step_frame) simp

lemma linkDevice_frame:
  "linkDevice e w = (r, w') \<Longrightarrow>
   eventCh w' = eventCh w \<and> DeviceID w' = DeviceID w \<and> mqtt_client_set w' = mqtt_client_set w \<and>
   visited w' = visited w @ [StateLinking]"
  unfolding linkDevice_def by (drule http_step_frame) simp

lemma setConfig_frame:
  "setConfig e w = (r, w') \<Longrightarrow>
   eventCh w' = eventCh w \<and> DeviceID w' = DeviceID w \<and> mqtt_client_set w' = mqtt_client_set w \<and>
   visited w' = visited w @ [StateConfiguring]"
  unfolding setConfig_def by (drule http_step_frame) simp

lemma getConfig_frame:
  "getConfig e w = (r, w') \<Longrightarrow>
   eventCh w' = eventCh w \<and> DeviceID w' = DeviceID w \<and> mqtt_client_set w' = mqtt_client_set w \<and>
   visited w' = visited w"
  unfolding getConfig_def by (drule http_step_frame) simp

lemma connect_frame:
  "connect e w = (r, w') \<Longrightarrow>
   eventCh w' = eventCh w \<and> DeviceID w' = DeviceID w \<and> (mqtt_client_set w \<longrightarrow> mqtt_client_set w') \<and>
   visited w' = visited w"
  by (auto simp: connect_def Let_def split: token_result.splits)

lemma subscribe_frame:
  "subscribe e w = (r, w') \<Longrightarrow>
   eventCh w' = eventCh w \<and> DeviceID w' = DeviceID w \<and> mqtt_client_set w' = mqtt_client_set w \<and>
   visited w' = visited w"
  by (auto simp: subscribe_def Let_def split: token_result.splits if_splits)

lemma steps_frame:
  assumes "s \<in> set (steps e)" and "snd s w = (r, w')"
  shows "eventCh w' = eventCh w \<and> DeviceID w' = DeviceID w \<and>
         (mqtt_client_set w \<longrightarrow> mqtt_client_set w') \<and>
         (StateActive \<in> set (visited w') \<longrightarrow> StateActive \<in> set (visited w))"
proof -
  from assms(1) consider
      "snd s = registerDevice e" | "snd s = registerUser e" | "snd s = login e"
    | "snd s = linkDevice e" | "snd s = setConfig e" | "snd s = getConfig e"
    | "snd s = connect e" | "snd s = subscribe e"
    by (auto simp: steps_def)
  then show ?thesis
  proof cases
    case 1 with assms(2) registerDevice_frame [of e w r w'] show ?thesis by simp
  next
    case 2 with assms(2) registerUser_frame [of e w r w'] show ?thesis by simp
  next
    case 3 with assms(2) login_frame [of e w r w'] show ?thesis by simp
  next
    case 4 with assms(2) linkDevice_frame [of e w r w'] show ?thesis by simp
  next
    case 5 with assms(2) setConfig_frame [of e w r w'] show ?thesis by simp
  next
    case 6 with assms(2) getConfig_frame [of e w r w'] show ?thesis by simp
  next
    case 7 with assms(2) connect_frame [of e w r w'] show ?thesis by simp
  next
    case 8 with assms(2) subscribe_frame [of e w r w'] show ?thesis by simp
  qed
qed

lemma run_prefix_frame:
  "set ss \<subseteq> set (steps e) \<Longrightarrow> run_prefix ss w = Some w' \<Longrightarrow>
   eventCh w' = eventCh w \<and> DeviceID w' = DeviceID w \<and>
   (mqtt_client_set w \<longrightarrow> mqtt_client_set w') \<and>
   (StateActive \<in> set (visited w') \<longrightarrow> StateActive \<in> set (visited w))"
proof (induction ss arbitrary: w)
  case Nil
  then show ?case by simp
next
  case (Cons s ss)
  from Cons.prems(2) obtain w1 where s: "snd s w = (None, w1)" and rest: "run_prefix ss w1 = Some w'"
    by (auto split: prod.splits option.splits)
  from Cons.prems(1) have "s \<in> set (steps e)" and sub: "set ss \<subseteq> set (steps e)" by auto
  from steps_frame [OF this(1) s] Cons.IH [OF sub rest] show ?case by simp
qed

lemma registerDevice_ok:
  "status_ok e ''POST'' ''/device/register'' [200, 201] \<Longrightarrow> fst (registerDevice e w) = None"
  by (simp add: registerDevice_def http_step_ok)

lemma registerUser_ok:
  "status_ok e ''POST'' ''/user/register'' [200, 201] \<Longrightarrow> fst (registerUser e w) = None"
  by (simp add: registerUser_def http_step_ok)

lemma login_ok:
  "status_ok e ''POST'' ''/auth/login'' [200, 201] \<Longrightarrow> fst (login e w) = None"
  by (simp add: login_def http_step_ok)

lemma linkDevice_ok:
  "status_ok e ''POST'' ''/user/device/link'' [200, 201] \<Longrightarrow> fst (linkDevice e w) = None"
  by (simp add: linkDevice_def http_step_ok)

lemma setConfig_ok:
  "status_ok e ''POST'' (config_path w) [200, 201] \<Longrightarrow> fst (setConfig e w) = None"
  by (simp add: setConfig_def http_step_ok)

lemma getConfig_ok:
  "status_ok e ''GET'' (config_path w) [200] \<Longrightarrow> fst (getConfig e w) = None"
  by (simp add: getConfig_def http_step_ok)

lemma steps_succeed:
  assumes ok: "all_steps_succeed e w"
  shows "\<exists>w8. run_prefix (steps e) w = Some w8 \<and> mqtt_client_set w8"
proof -
  obtain r1 w1 where s1: "registerDevice e w = (r1, w1)" by (cases "registerDevice e w")
  from ok have n1: "r1 = None"
    using registerDevice_ok [of e w] s1 by (simp add: all_steps_succeed_def)
  note f1 = registerDevice_frame [OF s1]
  obtain r2 w2 where s2: "registerUser e w1 = (r2, w2)" by (cases "registerUser e w1")
  from ok have n2: "r2 = None"
    using registerUser_ok [of e w1] s2 by (simp add: all_steps_succeed_def)
  note f2 = registerUser_frame [OF s2]
  obtain r3 w3 where s3: "login e w2 = (r3, w3)" by (cases "login e w2")
  from ok have n3: "r3 = None"
    using login_ok [of e w2] s3 by (simp add: all_steps_succeed_def)
  note f3 = login_frame [OF s3]
  obtain r4 w4 where s4: "linkDevice e w3 = (r4, w4)" by (cases "linkDevice e w3")
  from ok have n4: "r4 = None"
    using linkDevice_ok [of e w3] s4 by (simp add: all_steps_succeed_def)
  note f4 = linkDevice_frame [OF s4]
  have id4: "config_path w4 = config_path w" using f1 f2 f3 f4 by (simp add: config_path_def)
  obtain r5 w5 where s5: "setConfig e w4 = (r5, w5)" by (cases "setConfig e w4")
  from ok id4 have n5: "r5 = None"
    using setConfig_ok [of e w4] s5 by (simp add: all_steps_succeed_def)
  note f5 = setConfig_frame [OF s5]
  have id5: "config_path w5 = config_path w" using f1 f2 f3 f4 f5 by (simp add: config_path_def)
  obtain r6 w6 where s6: "getConfig e w5 = (r6, w6)" by (cases "getConfig e w5")
  from ok id5 have n6: "r6 = None"
    using getConfig_ok [of e w5] s6 by (simp add: all_steps_succeed_def)
  define w7 where "w7 = w6\<lparr>calls := calls w6 @ [MqttConnect], mqtt_client_set := True\<rparr>"
  from ok have s7: "connect e w6 = (None, w7)"
    by (simp add: all_steps_succeed_def connect_def Let_def w7_def)
  have c7: "mqtt_client_set w7" by (simp add: w7_def)
  obtain r8 w8 where s8: "subscribe e w7 = (r8, w8)" by (cases "subscribe e w7")
  from ok c7 s8 have n8: "r8 = None"
    by (auto simp: all_steps_succeed_def subscribe_def Let_def)
  from subscribe_frame [OF s8] c7 have c8: "mqtt_client_set w8" by simp
  have "run_prefix (steps e) w = Some w8"
    using s1 s2 s3 s4 s5 s6 s7 s8 n1 n2 n3 n4 n5 n6 n8 by (simp add: steps_def)
  with c8 show ?thesis by blast
qed

lemma cleanup_fields:
  "State (cleanup e w) = StateDone"
  "eventCh (cleanup e w) = eventCh w @ [Event (DeviceID w) EventDone]"
  "visited (cleanup e w) = visited w @ [StateDone]"
  "mqtt_client_set w \<Longrightarrow> calls (cleanup e w) = calls w @ cleanup_calls e w"
proof -
  obtain r w1 where l: "logout e w = (r, w1)" by (cases "logout e w")
  from http_step_frame [OF l [unfolded logout_def]]
  have f: "eventCh w1 = eventCh w" "DeviceID w1 = DeviceID w" "visited w1 = visited w"
    "mqtt_client_set w1 = mqtt_client_set w" "calls w1 = calls w @ [HttpDo ''POST'' ''/auth/logout'']"
    by simp_all
  show "State (cleanup e w) = StateDone" by (simp add: cleanup_def)
  show "eventCh (cleanup e w) = eventCh w @ [Event (DeviceID w) EventDone]"
    using f by (simp add: cleanup_def l disconnect_def Let_def)
  show "visited (cleanup e w) = visited w @ [StateDone]"
    using f by (simp add: cleanup_def l disconnect_def Let_def)
  show "calls (cleanup e w) = calls w @ cleanup_calls e w" if "mqtt_client_set w"
    using f that by (simp add: cleanup_def l disconnect_def Let_def cleanup_calls_def presenceTopic_def)
qed

lemma Run_completes:
  assumes ok: "all_steps_succeed e w" and c: "closed_at e = Some t" and t: "14 < t"
  shows "\<exists>w8. run_prefix (steps e) w = Some w8 \<and>
           Run e w = Returned ((cleanup e (send EventActive
              (w8\<lparr>State := StateActive, visited := visited w8 @ [StateActive]\<rparr>)))\<lparr>doneCh_closed := True\<rparr>) \<and>
           returned (Run e w) \<and>
           State (final (Run e w)) = StateDone \<and>
           eventCh (final (Run e w)) = eventCh w @ [Event (DeviceID w) EventActive, Event (DeviceID w) EventDone] \<and>
           visited (final (Run e w)) = visited w8 @ [StateActive, StateDone] \<and>
           calls (final (Run e w)) = calls w8 @ cleanup_calls e w"
proof -
  from steps_succeed [OF ok] obtain w8 where p: "run_prefix (steps e) w = Some w8" and m: "mqtt_client_set w8"
    by blast
  from c t have "\<not> stop_seen e (2 * (0 + length (steps e)) - 2)"
    by (simp add: stop_seen_def steps_def)
  from run_steps_all_ok [OF p this] have loop: "run_steps e 0 (steps e) w = (True, w8)" .
  from run_prefix_frame [OF subset_refl p]
  have f: "eventCh w8 = eventCh w" "DeviceID w8 = DeviceID w" by simp_all
  define wa where "wa = send EventActive (w8\<lparr>State := StateActive, visited := visited w8 @ [StateActive]\<rparr>)"
  have r: "Run e w = Returned ((cleanup e wa)\<lparr>doneCh_closed := True\<rparr>)"
    using loop c by (simp add: Run_def wa_def Let_def)
  have wa: "eventCh wa = eventCh w @ [Event (DeviceID w) EventActive]" "DeviceID wa = DeviceID w"
    "visited wa = visited w8 @ [StateActive]" "calls wa = calls w8" "mqtt_client_set wa"
    using f m by (simp_all add: wa_def)
  have pt: "cleanup_calls e wa = cleanup_calls e w"
    using wa by (simp add: cleanup_calls_def presenceTopic_def)
  have "run_prefix (steps e) w = Some w8 \<and>
           Run e w = Returned ((cleanup e (send EventActive
              (w8\<lparr>State := StateActive, visited := visited w8 @ [StateActive]\<rparr>)))\<lparr>doneCh_closed := True\<rparr>) \<and>
           returned (Run e w) \<and>
           State (final (Run e w)) = StateDone \<and>
           eventCh (final (Run e w)) = eventCh w @ [Event (DeviceID w) EventActive, Event (DeviceID w) EventDone] \<and>
           visited (final (Run e w)) = visited w8 @ [StateActive, StateDone] \<and>
           calls (final (Run e w)) = calls w8 @ cleanup_calls e w"
    unfolding wa_def [symmetric]
    using p r wa pt cleanup_fields [where e = e and w = wa] by simp
  then show ?thesis by (rule exI)
qed

subsection \<open>Cancellation before the first step, and a failing step\<close>

lemma calls_frame_http:
  "check_status what acc (doWithTimeout e m p w) = (r, w') \<Longrightarrow> p \<noteq> ''/auth/logout'' \<Longrightarrow>
   (HttpDo ''POST'' ''/auth/logout'' \<in> set (calls w') \<longrightarrow> HttpDo ''POST'' ''/auth/logout'' \<in> set (calls w)) \<and>
   (MqttDisconnectCalled \<in> set (calls w') \<longrightarrow> MqttDisconnectCalled \<in> set (calls w))"
  by (drule http_step_frame) simp

lemma steps_no_cleanup_calls:
  assumes "s \<in> set (steps e)" and "snd s w = (r, w')"
  shows "(HttpDo ''POST'' ''/auth/logout'' \<in> set (calls w') \<longrightarrow> HttpDo ''POST'' ''/auth/logout'' \<in> set (calls w)) \<and>
         (MqttDisconnectCalled \<in> set (calls w') \<longrightarrow> MqttDisconnectCalled \<in> set (calls w))"
proof -
  from assms(1) consider
      "snd s = registerDevice e" | "snd s = registerUser e" | "snd s = login e"
    | "snd s = linkDevice e" | "snd s = setConfig e" | "snd s = getConfig e"
    | "snd s = connect e" | "snd s = subscribe e"
    by (auto simp: steps_def)
  then show ?thesis
  proof cases
    case 1 with assms(2) show ?thesis
      unfolding registerDevice_def by (auto dest!: calls_frame_http)
  next
    case 2 with assms(2) show ?thesis
      unfolding registerUser_def by (auto dest!: calls_frame_http)
  next
    case 3 with assms(2) show ?thesis
      unfolding login_def by (auto dest!: calls_frame_http)
  next
    case 4 with assms(2) show ?thesis
      unfolding linkDevice_def by (auto dest!: calls_frame_http)
  next
    case 5 with assms(2) show ?thesis
      unfolding setConfig_def config_path_def by (auto dest!: calls_frame_http)
  next
    case 6 with assms(2) show ?thesis
      unfolding getConfig_def config_path_def by (auto dest!: calls_frame_http)
  next
    case 7 with assms(2) show ?thesis
      by (auto simp: connect_def Let_def split: token_result.splits)
  next
    case 8 with assms(2) show ?thesis
      by (auto simp: subscribe_def Let_def split: token_result.splits if_splits)
  qed
qed

lemma run_prefix_no_cleanup_calls:
  "set ss \<subseteq> set (steps e) \<Longrightarrow> run_prefix ss w = Some w' \<Longrightarrow>
   (HttpDo ''POST'' ''/auth/logout'' \<in> set (calls w') \<longrightarrow> HttpDo ''POST'' ''/auth/logout'' \<in> set (calls w)) \<and>
   (MqttDisconnectCalled \<in> set (calls w') \<longrightarrow> MqttDisconnectCalled \<in> set (calls w))"
proof (induction ss arbitrary: w)
  case Nil
  then show ?case by simp
next
  case (Cons s ss)
  from Cons.prems(2) obtain w1 where s: "snd s w = (None, w1)" and rest: "run_prefix ss w1 = Some w'"
    by (auto split: prod.splits option.splits)
  from Cons.prems(1) have "s \<in> set (steps e)" and sub: "set ss \<subseteq> set (steps e)" by auto
  from steps_no_cleanup_calls [OF this(1) s] Cons.IH [OF sub rest] show ?case by blast
qed

text \<open>
  Claim C7. A device whose cancellation signal is already set when \<^verbatim>\<open>Run\<close> begins (the
  channel is closed at moment 0, the \<^verbatim>\<open>select\<close> before the first step) goes straight to
  \<^verbatim>\<open>StateDone\<close> and \<^verbatim>\<open>Run\<close> returns: no collaborator operation is invoked (no call is
  made and the HTTP log is as it was) and nothing is sent on the event channel.
\<close>

theorem Run_cancelled_before_first_step:
  assumes "closed_at e = Some 0"
  shows "Run e w = Returned (w\<lparr>State := StateDone, visited := visited w @ [StateDone], doneCh_closed := True\<rparr>) \<and>
         State (final (Run e w)) = StateDone \<and>
         calls (final (Run e w)) = calls w \<and>
         HTTPLog (final (Run e w)) = HTTPLog w \<and>
         eventCh (final (Run e w)) = eventCh w"
  using assms by (simp add: Run_def steps_def stop_seen_def setState_def)

theorem Run_cancelled_before_first_step_witness:
  "closed_at (env_ok (Some 0)) = Some 0 \<and>
   returned (Run (env_ok (Some 0)) dev0) \<and>
   State (final (Run (env_ok (Some 0)) dev0)) = StateDone \<and>
   calls (final (Run (env_ok (Some 0)) dev0)) = [] \<and>
   HTTPLog (final (Run (env_ok (Some 0)) dev0)) = [] \<and>
   eventCh (final (Run (env_ok (Some 0)) dev0)) = []"
proof -
  have h: "closed_at (env_ok (Some 0)) = Some 0" by (simp add: env_ok_def)
  from Run_cancelled_before_first_step [OF h, of dev0] h show ?thesis
    by (simp add: dev0_def device_New_def)
qed

text \<open>
  Claim C1. Step \<open>i\<close> fails: the steps before it have succeeded and left the world \<open>wi\<close>,
  the channel was not seen closed by the \<^verbatim>\<open>select\<close> before step \<open>i\<close>, and the step function
  returns the error \<open>err\<close>, leaving the world \<open>wfail\<close>. Then \<^verbatim>\<open>Run\<close> returns; the state is
  \<^verbatim>\<open>StateError\<close>; the error text is the step's name, a colon and the error; exactly one
  event, a became-error, has been added to the event channel; the calls and the HTTP log
  are those of \<open>wfail\<close>, so no later step has run; and a device that had not been Active
  before has not been Active at any moment of the run.
\<close>

theorem Run_step_failure:
  assumes i: "i < length (steps e)"
    and pre: "run_prefix (take i (steps e)) w = Some wi"
    and fails: "snd (steps e ! i) wi = (Some err, wfail)"
    and live: "\<not> stop_seen e (2 * i)"
  shows "Run e w = Returned ((send EventError (setError (fst (steps e ! i) @ '': '' @ err) wfail))\<lparr>doneCh_closed := True\<rparr>) \<and>
         State (final (Run e w)) = StateError \<and>
         ErrorMsg (final (Run e w)) = fst (steps e ! i) @ '': '' @ err \<and>
         eventCh (final (Run e w)) = eventCh w @ [Event (DeviceID w) EventError] \<and>
         calls (final (Run e w)) = calls wfail \<and>
         HTTPLog (final (Run e w)) = HTTPLog wfail \<and>
         (StateActive \<notin> set (visited w) \<longrightarrow> StateActive \<notin> set (visited (final (Run e w))))"
proof -
  have split: "steps e = take i (steps e) @ steps e ! i # drop (Suc i) (steps e)"
    using i by (rule id_take_nth_drop)
  have len: "length (take i (steps e)) = i" using i by simp
  from live have live': "\<not> stop_seen e (2 * (0 + length (take i (steps e))))" using len by simp
  have "run_steps e 0 (take i (steps e) @ steps e ! i # drop (Suc i) (steps e)) w =
        (False, send EventError (setError (fst (steps e ! i) @ '': '' @ err) wfail))"
    by (rule run_steps_fail [OF pre fails live'])
  with split have loop: "run_steps e 0 (steps e) w =
        (False, send EventError (setError (fst (steps e ! i) @ '': '' @ err) wfail))" by simp
  have f1: "eventCh wi = eventCh w" "DeviceID wi = DeviceID w"
    "StateActive \<in> set (visited wi) \<longrightarrow> StateActive \<in> set (visited w)"
    using run_prefix_frame [OF set_take_subset pre] by simp_all
  have "steps e ! i \<in> set (steps e)" using i by simp
  from steps_frame [OF this fails]
  have f2: "eventCh wfail = eventCh wi" "DeviceID wfail = DeviceID wi"
    "StateActive \<in> set (visited wfail) \<longrightarrow> StateActive \<in> set (visited wi)" by simp_all
  show ?thesis using loop f1 f2 by (auto simp: Run_def)
qed

lemma login_500: "fst (login env_login_500 w) = Some ''login returned 500''"
proof -
  have "show_int 500 = ''500''" by code_simp
  moreover have "http env_login_500 ''POST'' ''/auth/login'' = Response 500"
    by (simp add: env_login_500_def env_ok_def)
  ultimately show ?thesis
    using http_step_bad_status [of env_login_500 "''POST''" "''/auth/login''" 500 "[200, 201]" "''login''"]
    by (simp add: login_def)
qed

theorem Run_step_failure_witness:
  "State (final (Run env_login_500 dev0)) = StateError \<and>
   ErrorMsg (final (Run env_login_500 dev0)) = ''login: login returned 500'' \<and>
   eventCh (final (Run env_login_500 dev0)) = [Event (DeviceID dev0) EventError] \<and>
   StateActive \<notin> set (visited (final (Run env_login_500 dev0)))"
proof -
  let ?e = env_login_500
  define w1 where "w1 = snd (registerDevice ?e dev0)"
  define w2 where "w2 = snd (registerUser ?e w1)"
  define w3 where "w3 = snd (login ?e w2)"
  have ok: "status_ok ?e ''POST'' ''/device/register'' [200, 201]"
    "status_ok ?e ''POST'' ''/user/register'' [200, 201]"
    by (simp_all add: status_ok_def env_login_500_def env_ok_def)
  have s1: "registerDevice ?e dev0 = (None, w1)"
    using registerDevice_ok [OF ok(1), of dev0] by (simp add: w1_def prod_eq_iff)
  have s2: "registerUser ?e w1 = (None, w2)"
    using registerUser_ok [OF ok(2), of w1] by (simp add: w2_def prod_eq_iff)
  have h1: "2 < length (steps ?e)" by (simp add: steps_def)
  have h2: "run_prefix (take 2 (steps ?e)) dev0 = Some w2"
    using s1 s2 by (simp add: steps_def)
  have h3: "snd (steps ?e ! 2) w2 = (Some ''login returned 500'', w3)"
    using login_500 [of w2] by (simp add: steps_def w3_def prod_eq_iff)
  have h4: "\<not> stop_seen ?e (2 * 2)" by (simp add: stop_seen_def env_login_500_def env_ok_def)
  have name: "fst (steps ?e ! 2) = ''login''" by (simp add: steps_def)
  have fresh: "StateActive \<notin> set (visited dev0)" "eventCh dev0 = []"
    by (simp_all add: dev0_def device_New_def)
  from Run_step_failure [OF h1 h2 h3 h4, THEN conjunct2] name fresh show ?thesis by simp
qed

subsection \<open>Cancellation of an active device, and between two steps\<close>



text \<open>
  Claim C10, as stated, fails when the signal fires while the last step is in flight
  (moment 15): seven steps have completed and the eighth has not, yet no \<^verbatim>\<open>select\<close> is
  left to see the signal before the loop ends. The device becomes Active, sends
  became-active and became-done, and runs the cleanup (logout and broker disconnect).
\<close>

theorem cancel_during_last_step_counterexample:
  "closed_at (env_ok (Some 15)) = Some 15 \<and>
   all_steps_succeed (env_ok (Some 15)) dev0 \<and>
   returned (Run (env_ok (Some 15)) dev0) \<and>
   eventCh (final (Run (env_ok (Some 15)) dev0)) =
     [Event (DeviceID dev0) EventActive, Event (DeviceID dev0) EventDone] \<and>
   HttpDo ''POST'' ''/auth/logout'' \<in> set (calls (final (Run (env_ok (Some 15)) dev0))) \<and>
   MqttDisconnectCalled \<in> set (calls (final (Run (env_ok (Some 15)) dev0)))"
proof -
  have h1: "all_steps_succeed (env_ok (Some 15)) dev0"
    by (simp add: all_steps_succeed_def status_ok_def env_ok_def)
  have h2: "closed_at (env_ok (Some 15)) = Some 15" by (simp add: env_ok_def)
  have h3: "(14::nat) < 15" by simp
  have e: "eventCh dev0 = []" by (simp add: dev0_def device_New_def)
  from Run_completes [OF h1 h2 h3] h1 h2 e show ?thesis
    by (auto simp: cleanup_calls_def)
qed

text \<open>
  Claim C10, amended. The signal is first seen by the \<^verbatim>\<open>select\<close> before step \<open>k\<close>
  (counted from 0), for \<open>1 \<le> k < 8\<close>: it fires while step \<open>k - 1\<close> is in flight or right
  after it, and the \<open>k\<close> steps before have succeeded, leaving the world \<open>wk\<close>. Then
  \<^verbatim>\<open>Run\<close> returns with the state \<^verbatim>\<open>StateDone\<close>, nothing is sent on the event channel, and
  the calls are those of the \<open>k\<close> steps: neither the logout request nor the broker
  disconnect is among them, unless it was there before the run.
\<close>

theorem Run_cancelled_between_steps:
  assumes c: "closed_at e = Some t" and lo: "2 * k - 1 \<le> t" and hi: "t \<le> 2 * k"
    and k: "1 \<le> k" "k < 8"
    and pre: "run_prefix (take k (steps e)) w = Some wk"
  shows "Run e w = Returned (wk\<lparr>State := StateDone, visited := visited wk @ [StateDone], doneCh_closed := True\<rparr>) \<and>
         State (final (Run e w)) = StateDone \<and>
         eventCh (final (Run e w)) = eventCh w \<and>
         calls (final (Run e w)) = calls wk \<and>
         (HttpDo ''POST'' ''/auth/logout'' \<notin> set (calls w) \<longrightarrow>
            HttpDo ''POST'' ''/auth/logout'' \<notin> set (calls (final (Run e w)))) \<and>
         (MqttDisconnectCalled \<notin> set (calls w) \<longrightarrow>
            MqttDisconnectCalled \<notin> set (calls (final (Run e w))))"
proof -
  have len8: "length (steps e) = 8" by (simp add: steps_def)
  have split: "steps e = take k (steps e) @ drop k (steps e)" by simp
  have len: "length (take k (steps e)) = k" using k len8 by simp
  have post: "drop k (steps e) \<noteq> []" using k len8 by simp
  from c lo k have a: "take k (steps e) \<noteq> [] \<longrightarrow> \<not> stop_seen e (2 * (0 + length (take k (steps e))) - 2)"
    unfolding len by (auto simp: stop_seen_def)
  from c hi have b: "stop_seen e (2 * (0 + length (take k (steps e))))"
    unfolding len by (simp add: stop_seen_def)
  have "run_steps e 0 (take k (steps e) @ drop k (steps e)) w = (False, setState StateDone wk)"
    by (rule run_steps_cancel [OF pre a b post])
  then have loop: "run_steps e 0 (steps e) w = (False, setState StateDone wk)" by simp
  have f: "eventCh wk = eventCh w" using run_prefix_frame [OF set_take_subset pre] by simp
  note g = run_prefix_no_cleanup_calls [OF set_take_subset pre]
  show ?thesis using loop f g by (auto simp: Run_def setState_def)
qed

theorem Run_cancelled_between_steps_witness:
  "closed_at (env_ok (Some 2)) = Some 2 \<and>
   run_prefix (take 1 (steps (env_ok (Some 2)))) dev0 = Some (snd (registerDevice (env_ok (Some 2)) dev0)) \<and>
   returned (Run (env_ok (Some 2)) dev0) \<and>
   State (final (Run (env_ok (Some 2)) dev0)) = StateDone \<and>
   eventCh (final (Run (env_ok (Some 2)) dev0)) = [] \<and>
   calls (final (Run (env_ok (Some 2)) dev0)) = [HttpDo ''POST'' ''/device/register'']"
proof -
  let ?e = "env_ok (Some 2)"
  define w1 where "w1 = snd (registerDevice ?e dev0)"
  have ok: "status_ok ?e ''POST'' ''/device/register'' [200, 201]"
    by (simp add: status_ok_def env_ok_def)
  have s1: "registerDevice ?e dev0 = (None, w1)"
    using registerDevice_ok [OF ok, of dev0] by (simp add: w1_def prod_eq_iff)
  have h1: "closed_at ?e = Some 2" by (simp add: env_ok_def)
  have h2: "2 * 1 - 1 \<le> (2::nat)" "(2::nat) \<le> 2 * 1" "(1::nat) \<le> 1" "(1::nat) < 8" by simp_all
  have h3: "run_prefix (take 1 (steps ?e)) dev0 = Some w1"
    using s1 by (simp add: steps_def)
  have fresh: "eventCh dev0 = []" "calls dev0 = []" by (simp_all add: dev0_def device_New_def)
  have c1: "calls w1 = [HttpDo ''POST'' ''/device/register'']"
    using http_step_frame [OF s1 [unfolded registerDevice_def]] fresh by simp
  have r: "returned (Run ?e dev0)"
    using Run_cancelled_between_steps [OF h1 h2 h3, THEN conjunct1] by simp
  from Run_cancelled_between_steps [OF h1 h2 h3, THEN conjunct2] r h1 h3 fresh c1 show ?thesis
    unfolding w1_def [symmetric] by simp
qed

section \<open>Properties of the provider assignment\<close>

lemma go_quot_nonneg: "0 \<le> a \<Longrightarrow> go_quot a 100 = a div 100"
  by (simp add: go_quot_def)

lemma weighted_list_concat:
  "weighted_list n distr ks = concat (map (\<lambda>k. replicate (copies n distr k) k) ks)"
  by (induction ks) (auto simp: copies_def split: option.splits)

lemma count_list_replicate: "count_list (replicate m x) y = (if x = y then m else 0)"
  by (induction m) auto

lemma count_weighted_list:
  "count_list (weighted_list n distr ks) c = count_list ks c * copies n distr c"
  by (induction ks) (auto simp: copies_def count_list_replicate split: option.splits)

lemma length_weighted_list:
  "length (weighted_list n distr ks) = sum_list (map (copies n distr) ks)"
  by (induction ks) (auto simp: copies_def split: option.splits)

lemma set_weighted_list: "set (weighted_list n distr ks) \<subseteq> set ks"
  by (induction ks) (auto simp: copies_def split: option.splits)

lemma mset_weighted_list:
  "mset ks = mset ks' \<Longrightarrow> mset (weighted_list n distr ks) = mset (weighted_list n distr ks')"
proof (rule multiset_eqI)
  fix c
  assume "mset ks = mset ks'"
  then have "count_list ks c = count_list ks' c" by (metis count_mset)
  then show "count (mset (weighted_list n distr ks)) c = count (mset (weighted_list n distr ks')) c"
    by (simp add: count_mset count_weighted_list)
qed

lemma div_add_le_int: "a div 100 + b div 100 \<le> (a + b) div (100::int)"
proof -
  have "100 * (a div 100) \<le> a" "100 * (b div 100) \<le> b"
    by (simp_all flip: minus_mod_eq_mult_div)
  then have "100 * (a div 100 + b div 100) \<le> a + b" by (simp add: distrib_left)
  then have "(100 * (a div 100 + b div 100)) div 100 \<le> (a + b) div 100"
    by (rule zdiv_mono1) simp
  then show ?thesis by simp
qed

lemma sum_list_div_le:
  "sum_list (map (\<lambda>x. f x div 100) xs) \<le> sum_list (map f xs) div (100::int)"
proof (induction xs)
  case Nil
  then show ?case by simp
next
  case (Cons x xs)
  have "f x div 100 + sum_list (map (\<lambda>x. f x div 100) xs) \<le> f x div 100 + sum_list (map f xs) div 100"
    using Cons.IH by simp
  also have "\<dots> \<le> (f x + sum_list (map f xs)) div 100" by (rule div_add_le_int)
  finally show ?case by simp
qed

lemma copies_total:
  assumes n: "0 \<le> n" and v: "valid_distribution distr"
    and ks: "distinct ks" "set ks = dom distr"
  shows "sum_list (map (copies n distr) ks) \<le> nat n"
proof -
  have each: "int (copies n distr k) = (the (distr k) * n) div 100" if "k \<in> set ks" for k
  proof -
    from that ks obtain pct where p: "distr k = Some pct" by auto
    with v have "0 \<le> pct" by (auto simp: valid_distribution_def)
    with n have "0 \<le> pct * n" by simp
    with p show ?thesis by (simp add: copies_def go_quot_nonneg)
  qed
  have "int (sum_list (map (copies n distr) ks)) = sum_list (map (\<lambda>k. int (copies n distr k)) ks)"
    by (induction ks) auto
  also have "\<dots> = sum_list (map (\<lambda>k. (the (distr k) * n) div 100) ks)"
    using each by (intro arg_cong [where f = sum_list] map_cong) auto
  also have "\<dots> \<le> sum_list (map (\<lambda>k. the (distr k) * n) ks) div 100"
    by (rule sum_list_div_le)
  also have "sum_list (map (\<lambda>k. the (distr k) * n) ks) = sum_list (map (\<lambda>k. the (distr k)) ks) * n"
    by (induction ks) (auto simp: algebra_simps)
  also have "sum_list (map (\<lambda>k. the (distr k)) ks) = (\<Sum>k\<in>dom distr. the (distr k))"
    using ks by (simp add: sum_list_distinct_conv_sum_set)
  also have "\<dots> = 100" using v by (simp add: valid_distribution_def)
  finally show ?thesis using n by simp
qed

lemma fill_pass_take:
  "int (length w) < n \<Longrightarrow> fill_pass n ks w = w @ take (nat n - length w) ks"
proof (induction ks arbitrary: w)
  case Nil
  then show ?case by simp
next
  case (Cons k ks)
  show ?case
  proof (cases "n \<le> int (length (w @ [k]))")
    case True
    with Cons.prems have "nat n - length w = 1" by simp
    with True show ?thesis by simp
  next
    case False
    then have lt: "int (length (w @ [k])) < n" by simp
    with Cons.prems have "nat n - length w = Suc (nat n - length (w @ [k]))" by simp
    with False Cons.IH [OF lt] show ?thesis by simp
  qed
qed

lemma fill_returns:
  assumes ne: "\<And>j. ords j \<noteq> []"
  shows "int (length (w :: string list)) \<le> n \<Longrightarrow>
     \<exists>ex. length w + length ex = nat n \<and> set ex \<subseteq> (\<Union>j. set (ords j)) \<and>
       (\<forall>w'. length w' = length w \<longrightarrow> fill n ords j w' = Some (w' @ ex))"
proof (induction "nat n - length w" arbitrary: w j rule: less_induct)
  case less
  show ?case
  proof (cases "int (length w) < n")
    case False
    with less.prems have eq: "length w = nat n" by simp
    have "\<forall>w'. length w' = length w \<longrightarrow> fill n ords j w' = Some (w' @ [])"
      using eq by (subst fill.simps) auto
    with eq show ?thesis by (intro exI [of _ "[]"]) simp
  next
    case True
    define pass where "pass = take (nat n - length w) (ords j)"
    have pos: "pass \<noteq> []" using True ne [of j] by (simp add: pass_def)
    have plen: "length w + length pass \<le> nat n" using True by (simp add: pass_def)
    have "nat n - length (w @ pass) < nat n - length w"
      using pos True by (cases pass) auto
    moreover have "int (length (w @ pass)) \<le> n" using plen True by simp
    ultimately obtain ex where ex: "length (w @ pass) + length ex = nat n"
      "set ex \<subseteq> (\<Union>j. set (ords j))"
      "\<forall>w'. length w' = length (w @ pass) \<longrightarrow> fill n ords (Suc j) w' = Some (w' @ ex)"
      using less.hyps [of "w @ pass" "Suc j"] by blast
    have "fill n ords j w' = Some (w' @ pass @ ex)" if l: "length w' = length w" for w'
    proof -
      from l True have lt: "int (length w') < n" by simp
      have "fill n ords j w' = fill n ords (Suc j) (fill_pass n (ords j) w')"
        using lt by (subst fill.simps) simp
      also have "fill_pass n (ords j) w' = w' @ pass"
        using fill_pass_take [OF lt] l by (simp add: pass_def)
      also have "fill n ords (Suc j) (w' @ pass) = Some ((w' @ pass) @ ex)"
        using ex(3) l by simp
      finally show ?thesis by simp
    qed
    moreover have "set pass \<subseteq> (\<Union>j. set (ords j))"
      unfolding pass_def using set_take_subset [of "nat n - length w" "ords j"] by blast
    ultimately show ?thesis
      using ex(1,2) by (intro exI [of _ "pass @ ex"]) auto
  qed
qed

lemma count_list_distinct: "distinct xs \<Longrightarrow> x \<in> set xs \<Longrightarrow> count_list xs x = 1"
  by (induction xs) auto

lemma AssignProviders_result:
  assumes n: "0 \<le> n" and v: "valid_distribution distr" and ch: "valid_choices distr ch"
  shows "\<exists>ex. AssignProviders n distr ch =
             Some (Inr (shuffle ch (weighted_list n distr (first_order ch) @ ex))) \<and>
           length (weighted_list n distr (first_order ch)) + length ex = nat n \<and>
           set ex \<subseteq> dom distr \<and>
           (\<forall>w'. length w' = length (weighted_list n distr (first_order ch)) \<longrightarrow>
              fill n (fill_order ch) 0 w' = Some (w' @ ex))"
proof -
  let ?w0 = "weighted_list n distr (first_order ch)"
  have "dom distr \<noteq> {}"
  proof
    assume "dom distr = {}"
    then have "(\<Sum>k\<in>dom distr. the (distr k)) = 0" by simp
    with v show False by (simp add: valid_distribution_def)
  qed
  with ch have ne: "fill_order ch j \<noteq> []" for j
    unfolding valid_choices_def by (metis set_empty)
  from ch have ords: "(\<Union>j. set (fill_order ch j)) = dom distr"
    by (auto simp: valid_choices_def)
  from ch have "distinct (first_order ch)" "set (first_order ch) = dom distr"
    by (simp_all add: valid_choices_def)
  from copies_total [OF n v this] have "length ?w0 \<le> nat n"
    by (simp add: length_weighted_list)
  with n have "int (length ?w0) \<le> n" by simp
  from fill_returns [of "fill_order ch" ?w0 n 0, OF ne this] ords
  obtain ex where ex: "length ?w0 + length ex = nat n" "set ex \<subseteq> dom distr"
    "\<forall>w'. length w' = length ?w0 \<longrightarrow> fill n (fill_order ch) 0 w' = Some (w' @ ex)"
    by auto
  from ex(3) have f: "fill n (fill_order ch) 0 ?w0 = Some (?w0 @ ex)" by simp
  from ch have "mset (shuffle ch (?w0 @ ex)) = mset (?w0 @ ex)" by (simp add: valid_choices_def)
  then have "size (mset (shuffle ch (?w0 @ ex))) = size (mset (?w0 @ ex))" by simp
  with ex(1) have "length (shuffle ch (?w0 @ ex)) = nat n" by simp
  with n f have "AssignProviders n distr ch = Some (Inr (shuffle ch (?w0 @ ex)))"
    by (simp add: AssignProviders_def)
  with ex show ?thesis by blast
qed

lemma assign_four:
  "AssignProviders 4 half_half cta_first = Some (Inr [''mta'', ''mta'', ''cta'', ''cta''])"
proof -
  have w: "weighted_list 4 half_half [''cta'', ''mta''] = [''cta'', ''cta'', ''mta'', ''mta'']"
    by (simp add: half_half_def go_quot_def numeral_2_eq_2)
  have "fill 4 (\<lambda>j. [''cta'', ''mta'']) 0 [''cta'', ''cta'', ''mta'', ''mta''] =
          Some [''cta'', ''cta'', ''mta'', ''mta'']"
    by (subst fill.simps) simp
  with w show ?thesis by (simp add: AssignProviders_def cta_first_def)
qed

text \<open>
  Claim C2. For a device count \<open>n \<ge> 0\<close> and percentages that are non-negative and sum to
  100, whatever order the runtime picks each time it ranges over the map and whatever
  permutation the shuffle applies, \<^verbatim>\<open>AssignProviders\<close> returns (the remainder loop ends)
  a list of exactly \<open>n\<close> keys in which every category with percentage \<open>pct\<close> occurs at
  least \<open>\<lfloor>pct * n / 100\<rfloor>\<close> times; the counts of the categories sum to \<open>n\<close>, and every
  key of the list is a key of the mapping.
\<close>

theorem AssignProviders_counts:
  assumes n: "0 \<le> n" and v: "valid_distribution distr" and ch: "valid_choices distr ch"
  shows "\<exists>ks. AssignProviders n distr ch = Some (Inr ks) \<and>
           int (length ks) = n \<and>
           (\<forall>c pct. distr c = Some pct \<longrightarrow> nat ((pct * n) div 100) \<le> count_list ks c) \<and>
           (\<Sum>c\<in>dom distr. count_list ks c) = nat n \<and>
           set ks \<subseteq> dom distr"
proof -
  let ?w0 = "weighted_list n distr (first_order ch)"
  from AssignProviders_result [OF assms] obtain ex where
    r: "AssignProviders n distr ch = Some (Inr (shuffle ch (?w0 @ ex)))"
    and len: "length ?w0 + length ex = nat n" and sub: "set ex \<subseteq> dom distr"
    by blast
  define ks where "ks = shuffle ch (?w0 @ ex)"
  from ch have m: "mset ks = mset (?w0 @ ex)" by (simp add: valid_choices_def ks_def)
  from ch have fo: "distinct (first_order ch)" "set (first_order ch) = dom distr"
    by (simp_all add: valid_choices_def)
  from m have "size (mset ks) = size (mset (?w0 @ ex))" by simp
  with len n have l: "int (length ks) = n" by simp
  from m have "set ks = set (?w0 @ ex)" by (rule mset_eq_setD)
  with sub set_weighted_list [of n distr "first_order ch"] fo have s: "set ks \<subseteq> dom distr" by auto
  have c: "nat ((pct * n) div 100) \<le> count_list ks c" if p: "distr c = Some pct" for c pct
  proof -
    from p fo have "count_list (first_order ch) c = 1"
      by (simp add: count_list_distinct domI)
    moreover from p v have "0 \<le> pct" by (auto simp: valid_distribution_def)
    with n have "0 \<le> pct * n" by simp
    with p have "copies n distr c = nat ((pct * n) div 100)"
      by (simp add: copies_def go_quot_nonneg)
    ultimately have "count_list ?w0 c = nat ((pct * n) div 100)"
      by (simp add: count_weighted_list)
    moreover from m have "count_list ks c = count_list ?w0 c + count_list ex c"
      by (metis count_list_append count_mset)
    ultimately show ?thesis by simp
  qed
  from v have "finite (dom distr)" by (simp add: valid_distribution_def)
  with s have "(\<Sum>c\<in>dom distr. count_list ks c) = length ks" by (rule sum_count_set)
  with l n have t: "(\<Sum>c\<in>dom distr. count_list ks c) = nat n" by simp
  from r l c t s show ?thesis unfolding ks_def [symmetric] by blast
qed

lemma valid_half_half: "valid_distribution half_half"
  by (auto simp: valid_distribution_def half_half_def split: if_splits)

lemma valid_cta_first: "valid_choices half_half cta_first"
  by (auto simp: valid_choices_def half_half_def cta_first_def split: if_splits)

lemma valid_mta_first: "valid_choices half_half mta_first"
  by (auto simp: valid_choices_def half_half_def mta_first_def split: if_splits)

lemma valid_cta_first_alt: "valid_choices half_half cta_first_alt"
  by (auto simp: valid_choices_def half_half_def cta_first_alt_def split: if_splits)

lemma fill_one: "fill 1 (\<lambda>j. [a, b]) 0 [] = Some [a]"
  by (subst fill.simps, simp, subst fill.simps, simp)

lemma assign_one_cta: "AssignProviders 1 half_half cta_first = Some (Inr [''cta''])"
  by (simp add: AssignProviders_def half_half_def cta_first_def go_quot_def fill_one)

lemma assign_one_mta: "AssignProviders 1 half_half mta_first = Some (Inr [''mta''])"
  by (simp add: AssignProviders_def half_half_def mta_first_def go_quot_def fill_one)

theorem AssignProviders_counts_witness:
  "(0::int) \<le> 4 \<and> valid_distribution half_half \<and> valid_choices half_half cta_first \<and>
   AssignProviders 4 half_half cta_first = Some (Inr [''mta'', ''mta'', ''cta'', ''cta'']) \<and>
   int (length [''mta'', ''mta'', ''cta'', ''cta'']) = 4 \<and>
   nat ((50 * 4) div 100) \<le> count_list [''mta'', ''mta'', ''cta'', ''cta''] ''cta'' \<and>
   (\<Sum>c\<in>dom half_half. count_list [''mta'', ''mta'', ''cta'', ''cta''] c) = nat 4 \<and>
   set [''mta'', ''mta'', ''cta'', ''cta''] \<subseteq> dom half_half"
proof -
  have h: "(0::int) \<le> 4" by simp
  have c: "half_half ''cta'' = Some 50" by (simp add: half_half_def)
  from AssignProviders_counts [OF h valid_half_half valid_cta_first] obtain ks where
    r: "AssignProviders 4 half_half cta_first = Some (Inr ks)"
    and l: "int (length ks) = 4"
    and f: "\<forall>c pct. half_half c = Some pct \<longrightarrow> nat ((pct * 4) div 100) \<le> count_list ks c"
    and t: "(\<Sum>c\<in>dom half_half. count_list ks c) = nat 4"
    and s: "set ks \<subseteq> dom half_half"
    by blast
  from r assign_four have ks: "ks = [''mta'', ''mta'', ''cta'', ''cta'']" by simp
  from f c have "nat ((50 * 4) div 100) \<le> count_list ks ''cta''" by blast
  with h valid_half_half valid_cta_first assign_four l t s show ?thesis
    unfolding ks by blast
qed

text \<open>
  Claim C9, as stated, fails: Go fixes no order for ranging over a map, so the remainder
  loop has no stable order. With one device and two categories of 50 percent each the
  first loop gives no slot to either, and the one slot goes to the category the remainder
  loop visits first: to cta in one run, to mta in another.
\<close>

theorem AssignProviders_counts_vary_counterexample:
  "valid_distribution half_half \<and> valid_choices half_half cta_first \<and>
   valid_choices half_half mta_first \<and>
   AssignProviders 1 half_half cta_first = Some (Inr [''cta'']) \<and>
   AssignProviders 1 half_half mta_first = Some (Inr [''mta'']) \<and>
   count_list [''cta''] ''cta'' = 1 \<and> count_list [''mta''] ''cta'' = 0"
  using valid_half_half valid_cta_first valid_mta_first assign_one_cta assign_one_mta by simp

text \<open>
  Claim C9, amended. Two runs on the same device count and the same valid percentages in
  which the remainder loop visits the categories in the same order produce the same
  count for every category, whatever the order of the first loop and whatever the two
  shuffles are.
\<close>

theorem AssignProviders_same_counts:
  assumes n: "0 \<le> n" and v: "valid_distribution distr"
    and ch1: "valid_choices distr ch1" and ch2: "valid_choices distr ch2"
    and same: "fill_order ch1 = fill_order ch2"
  shows "\<exists>ks1 ks2. AssignProviders n distr ch1 = Some (Inr ks1) \<and>
           AssignProviders n distr ch2 = Some (Inr ks2) \<and>
           (\<forall>c. count_list ks1 c = count_list ks2 c)"
proof -
  let ?w1 = "weighted_list n distr (first_order ch1)"
  let ?w2 = "weighted_list n distr (first_order ch2)"
  from AssignProviders_result [OF n v ch1] obtain ex1 where
    r1: "AssignProviders n distr ch1 = Some (Inr (shuffle ch1 (?w1 @ ex1)))"
    and d1: "\<forall>w'. length w' = length ?w1 \<longrightarrow> fill n (fill_order ch1) 0 w' = Some (w' @ ex1)"
    by blast
  from AssignProviders_result [OF n v ch2] obtain ex2 where
    r2: "AssignProviders n distr ch2 = Some (Inr (shuffle ch2 (?w2 @ ex2)))"
    and d2: "\<forall>w'. length w' = length ?w2 \<longrightarrow> fill n (fill_order ch2) 0 w' = Some (w' @ ex2)"
    by blast
  from ch1 ch2 have "mset (first_order ch1) = mset (first_order ch2)"
    by (simp add: valid_choices_def set_eq_iff_mset_eq_distinct [symmetric])
  then have w: "mset ?w1 = mset ?w2" by (rule mset_weighted_list)
  then have "size (mset ?w1) = size (mset ?w2)" by simp
  then have "length ?w2 = length ?w1" by simp
  with d1 same have "fill n (fill_order ch2) 0 ?w2 = Some (?w2 @ ex1)" by simp
  moreover from d2 have "fill n (fill_order ch2) 0 ?w2 = Some (?w2 @ ex2)" by simp
  ultimately have e: "ex1 = ex2" by simp
  from ch1 have "mset (shuffle ch1 (?w1 @ ex1)) = mset (?w1 @ ex1)" by (simp add: valid_choices_def)
  moreover from ch2 have "mset (shuffle ch2 (?w2 @ ex2)) = mset (?w2 @ ex2)" by (simp add: valid_choices_def)
  ultimately have "mset (shuffle ch1 (?w1 @ ex1)) = mset (shuffle ch2 (?w2 @ ex2))"
    using w e by simp
  then have "\<forall>c. count_list (shuffle ch1 (?w1 @ ex1)) c = count_list (shuffle ch2 (?w2 @ ex2)) c"
    by (metis count_mset)
  with r1 r2 show ?thesis by blast
qed

theorem AssignProviders_same_counts_witness:
  "(0::int) \<le> 1 \<and> valid_distribution half_half \<and> valid_choices half_half cta_first \<and>
   valid_choices half_half cta_first_alt \<and> fill_order cta_first = fill_order cta_first_alt \<and>
   shuffle cta_first \<noteq> shuffle cta_first_alt \<and>
   (\<exists>ks1 ks2. AssignProviders 1 half_half cta_first = Some (Inr ks1) \<and>
           AssignProviders 1 half_half cta_first_alt = Some (Inr ks2) \<and>
           (\<forall>c. count_list ks1 c = count_list ks2 c))"
proof -
  have h: "(0::int) \<le> 1" by simp
  have s: "fill_order cta_first = fill_order cta_first_alt"
    by (simp add: cta_first_def cta_first_alt_def)
  have "shuffle cta_first [''a'', ''b''] \<noteq> shuffle cta_first_alt [''a'', ''b'']"
    by (simp add: cta_first_def cta_first_alt_def)
  then have d: "shuffle cta_first \<noteq> shuffle cta_first_alt" by metis
  from AssignProviders_same_counts [OF h valid_half_half valid_cta_first valid_cta_first_alt s]
  show ?thesis using valid_half_half valid_cta_first valid_cta_first_alt s d by simp
qed

section \<open>Properties of the runner\<close>

subsection \<open>Construction\<close>













subsection \<open>The active count\<close>

lemma sint_inc:
  fixes a :: "64 word"
  assumes "sint a < 2 ^ 63 - 1"
  shows "sint (a + 1) = sint a + 1"
proof -
  have "- (2 ^ 63) \<le> sint a" using sint_ge [of a] by simp
  with assms have "signed_take_bit 63 (sint a + 1) = sint a + 1"
    by (intro signed_take_bit_int_eq_self) simp_all
  then show ?thesis by (simp add: sint_word_add)
qed

lemma sint_dec:
  fixes a :: "64 word"
  assumes "0 < sint a"
  shows "sint (a + (- 1)) = sint a - 1"
proof -
  have "sint a < 2 ^ 63" using sint_lt [of a] by simp
  with assms have "signed_take_bit 63 (sint a - 1) = sint a - 1"
    by (intro signed_take_bit_int_eq_self) simp_all
  then show ?thesis by (simp add: sint_word_diff)
qed

lemma on_event_active:
  assumes "0 \<le> sint (ActiveDevices s)" and "sint (ActiveDevices s) < 2 ^ 63 - 1"
  shows "0 \<le> sint (ActiveDevices (on_event ev s)) \<and>
         sint (ActiveDevices (on_event ev s)) \<le> sint (ActiveDevices s) + 1"
proof (cases "event_type ev")
  case EventActive
  with assms sint_inc [of "ActiveDevices s"] show ?thesis by (simp add: on_event_def)
next
  case EventError
  with assms show ?thesis by (simp add: on_event_def)
next
  case EventDone
  show ?thesis
  proof (cases "0 <s ActiveDevices s")
    case True
    then have "0 < sint (ActiveDevices s)" by (simp add: word_sless_alt)
    with EventDone True sint_dec [of "ActiveDevices s"] show ?thesis by (simp add: on_event_def)
  next
    case False
    with EventDone assms show ?thesis by (simp add: on_event_def)
  qed
next
  case EventMQTT
  with assms show ?thesis by (simp add: on_event_def)
qed

lemma on_tick_active: "ActiveDevices (stats (on_tick counts st)) = ActiveDevices (stats st)"
  by (simp add: on_tick_def Let_def)

lemma processEvents_active:
  "0 \<le> sint (ActiveDevices (stats st)) \<Longrightarrow>
   sint (ActiveDevices (stats st)) + int (length ins) < 2 ^ 63 \<Longrightarrow>
   0 \<le> sint (ActiveDevices (stats (processEvents ins st))) \<and>
   sint (ActiveDevices (stats (processEvents ins st))) \<le> sint (ActiveDevices (stats st)) + int (length ins)"
proof (induction ins arbitrary: st)
  case Nil
  then show ?case by simp
next
  case (Cons i ins)
  show ?case
  proof (cases i)
    case (Recv ev)
    let ?st = "st\<lparr>stats := on_event ev (stats st)\<rparr>"
    from Cons.prems have "sint (ActiveDevices (stats st)) < 2 ^ 63 - 1" by simp
    from on_event_active [OF Cons.prems(1) this, of ev]
    have a: "0 \<le> sint (ActiveDevices (stats ?st))"
      and b: "sint (ActiveDevices (stats ?st)) \<le> sint (ActiveDevices (stats st)) + 1" by simp_all
    from b Cons.prems(2) have "sint (ActiveDevices (stats ?st)) + int (length ins) < 2 ^ 63" by simp
    from Cons.IH [OF a this] b Recv show ?thesis by simp
  next
    case EventChClosed
    with Cons.prems show ?thesis by simp
  next
    case (TickFired counts)
    from Cons.prems have a: "0 \<le> sint (ActiveDevices (stats (on_tick counts st)))"
      and b: "sint (ActiveDevices (stats (on_tick counts st))) + int (length ins) < 2 ^ 63"
      by (simp_all add: on_tick_active)
    from Cons.IH [OF a b] TickFired show ?thesis by (simp add: on_tick_active)
  next
    case StopChClosed
    with Cons.prems show ?thesis by simp
  qed
qed

text \<open>
  Claim C5. Whatever the loop receives, in whatever order (fewer than \<open>2\<^sup>6\<^sup>3\<close> inputs, so
  that the 64-bit counter cannot wrap), the count of active devices is not negative
  after any number \<open>k\<close> of the inputs; and a became-done that arrives when the count is
  zero leaves it at zero.
\<close>

theorem active_count_never_negative:
  assumes "length ins < 2 ^ 63"
  shows "0 \<le> sint (ActiveDevices (stats (processEvents (take k ins) (loop_start n)))) \<and>
         (ActiveDevices s = 0 \<longrightarrow> ActiveDevices (on_event (Event d EventDone) s) = 0)"
proof -
  have "int (length (take k ins)) \<le> int (length ins)" by simp
  also from assms have "int (length ins) < 2 ^ 63" by (simp flip: of_nat_less_iff)
  finally have "sint (ActiveDevices (stats (loop_start n))) + int (length (take k ins)) < 2 ^ 63"
    by (simp add: loop_start_def)
  moreover have "0 \<le> sint (ActiveDevices (stats (loop_start n)))" by (simp add: loop_start_def)
  ultimately have "0 \<le> sint (ActiveDevices (stats (processEvents (take k ins) (loop_start n))))"
    using processEvents_active by blast
  moreover have "ActiveDevices s = 0 \<longrightarrow> ActiveDevices (on_event (Event d EventDone) s) = 0"
    by (simp add: on_event_def)
  ultimately show ?thesis by simp
qed


theorem active_count_never_negative_witness:
  "length done_first < 2 ^ 63 \<and>
   ActiveDevices (stats (processEvents (take 1 done_first) (loop_start 3))) = 0 \<and>
   0 \<le> sint (ActiveDevices (stats (processEvents (take 4 done_first) (loop_start 3)))) \<and>
   ActiveDevices (on_event (Event ''a'' EventDone) (stats (loop_start 3))) = 0"
proof -
  have h: "length done_first < 2 ^ 63" by (simp add: done_first_def)
  have z: "ActiveDevices (stats (loop_start 3)) = 0" by (simp add: loop_start_def)
  have one: "ActiveDevices (stats (processEvents (take 1 done_first) (loop_start 3))) = 0"
    by (simp add: done_first_def loop_start_def on_event_def)
  from active_count_never_negative [OF h, of 4 3 "stats (loop_start 3)" "''a''"] h z one
  show ?thesis by simp
qed

subsection \<open>The rolling rate\<close>

lemma on_event_window:
  "mqttWindow (on_event ev s) = mqttWindow s" "windowIdx (on_event ev s) = windowIdx s"
  by (simp_all add: on_event_def split: EventType.splits)

lemma foldl_add_word: "foldl (\<lambda>sum v. sum + v) a xs = a + sum_list (xs :: 64 word list)"
  by (induction xs arbitrary: a) (simp_all add: add.assoc)

lemma slot_distinct:
  assumes "(k + m) mod 5 = (k + m') mod (5::nat)" and "m < 5" and "m' < 5"
  shows "m = m'"
proof -
  have aux: "a = b" if eq: "(k + a) mod 5 = (k + b) mod (5::nat)" and le: "a \<le> b" and b: "b < 5" for a b
  proof (rule ccontr)
    assume "a \<noteq> b"
    with le b have pos: "0 < b - a" "b - a < 5" by simp_all
    from le have "k + a \<le> k + b" by simp
    from mod_eq_dvd_iff_nat [OF this, of 5] eq have "5 dvd b - a" by simp
    with nat_dvd_not_less [OF pos] show False by simp
  qed
  show ?thesis
  proof (cases "m \<le> m'")
    case True
    with assms aux [of m m'] show ?thesis by simp
  next
    case False
    with assms aux [of m' m] show ?thesis by simp
  qed
qed

lemma slot_step:
  fixes w :: "64 word list"
  assumes len: "length w = 5" and k: "k = length ds"
    and inv: "\<forall>m<5. w ! ((k + m) mod 5) = (replicate 5 0 @ ds) ! (k + m)"
  shows "\<forall>m<5. (w[k mod 5 := d]) ! ((Suc k + m) mod 5) = (replicate 5 0 @ ds @ [d]) ! (Suc k + m)"
proof (intro allI impI)
  fix m :: nat
  assume m: "m < 5"
  have assoc: "replicate 5 0 @ ds @ [d] = (replicate 5 0 @ ds) @ [d]" by simp
  have plen: "length (replicate 5 (0 :: 64 word) @ ds) = k + 5" using k by simp
  show "(w[k mod 5 := d]) ! ((Suc k + m) mod 5) = (replicate 5 0 @ ds @ [d]) ! (Suc k + m)"
  proof (cases "m = 4")
    case True
    then have "(Suc k + m) mod 5 = k mod 5" by simp
    moreover have "((replicate 5 0 @ ds) @ [d]) ! (Suc k + 4) = d"
      using plen by (subst nth_append_right) simp_all
    ultimately show ?thesis using len True unfolding assoc by simp
  next
    case False
    with m have m4: "Suc m < 5" by simp
    have ne: "(Suc k + m) mod 5 \<noteq> k mod 5"
    proof
      assume "(Suc k + m) mod 5 = k mod 5"
      then have "(k + Suc m) mod 5 = (k + 0) mod 5" by simp
      from slot_distinct [OF this m4] show False by simp
    qed
    have "((replicate 5 0 @ ds) @ [d]) ! (k + Suc m) = (replicate 5 0 @ ds) ! (k + Suc m)"
      using plen m4 by (intro nth_append_left) simp
    also have "\<dots> = w ! ((k + Suc m) mod 5)" using inv [rule_format, OF m4] by (rule sym)
    finally show ?thesis using ne len unfolding assoc by simp
  qed
qed

lemma slots_sum:
  fixes w p :: "64 word list"
  assumes len: "length w = 5" and plen: "length p = k + 5"
    and inv: "\<forall>m<5. w ! ((k + m) mod 5) = p ! (k + m)"
  shows "sum_list w = sum_list (drop k p)"
proof -
  let ?h = "\<lambda>m. (k + m) mod 5"
  have inj: "inj_on ?h {0..<5}"
    by (rule inj_onI) (auto dest: slot_distinct)
  have "?h ` {0..<5} \<subseteq> {0..<5}" by auto
  with inj have img: "?h ` {0..<5} = {0..<5}" by (intro endo_inj_surj) simp_all
  have "sum_list w = (\<Sum>i = 0..<5. w ! i)" using len by (simp add: sum_list_sum_nth)
  also have "\<dots> = sum (\<lambda>i. w ! i) (?h ` {0..<5})" by (simp only: img)
  also have "\<dots> = (\<Sum>m = 0..<5. w ! ?h m)" using inj by (simp add: sum.reindex)
  also have "\<dots> = (\<Sum>m = 0..<5. p ! (k + m))" using inv by (intro sum.cong) auto
  also have "\<dots> = (\<Sum>m = 0..<length (drop k p). drop k p ! m)" using plen by simp
  also have "\<dots> = sum_list (drop k p)" by (simp only: sum_list_sum_nth)
  finally show ?thesis .
qed

lemma processEvents_window:
  assumes "length (mqttWindow (stats st)) = 5" and "windowIdx (stats st) = length ds"
    and "\<forall>m<5. mqttWindow (stats st) ! ((length ds + m) mod 5) = (replicate 5 0 @ ds) ! (length ds + m)"
  shows "length (mqttWindow (stats (processEvents ins st))) = 5 \<and>
         (\<forall>m<5. mqttWindow (stats (processEvents ins st)) ! ((length (ds @ deltas (lastTotal st) ins) + m) mod 5) =
            (replicate 5 0 @ ds @ deltas (lastTotal st) ins) ! (length (ds @ deltas (lastTotal st) ins) + m))"
  using assms
proof (induction ins arbitrary: st ds)
  case Nil
  then show ?case by simp
next
  case (Cons i ins)
  show ?case
  proof (cases i)
    case (Recv ev)
    let ?st = "st\<lparr>stats := on_event ev (stats st)\<rparr>"
    have "length (mqttWindow (stats ?st)) = 5" "windowIdx (stats ?st) = length ds"
      "\<forall>m<5. mqttWindow (stats ?st) ! ((length ds + m) mod 5) = (replicate 5 0 @ ds) ! (length ds + m)"
      "lastTotal ?st = lastTotal st"
      using Cons.prems by (simp_all add: on_event_window)
    from Cons.IH [OF this(1-3)] this(4) Recv show ?thesis by simp
  next
    case EventChClosed
    with Cons.prems show ?thesis by simp
  next
    case (TickFired counts)
    define total where "total = foldl (\<lambda>total c. total + c) (0 :: 64 word) counts"
    define d where "d = total - lastTotal st"
    let ?st = "on_tick counts st"
    have w: "mqttWindow (stats ?st) = (mqttWindow (stats st))[length ds mod 5 := d]"
      and i: "windowIdx (stats ?st) = length (ds @ [d])"
      and l: "lastTotal ?st = total"
      using Cons.prems(2) by (simp_all add: on_tick_def Let_def total_def d_def)
    have a: "length (mqttWindow (stats ?st)) = 5" using w Cons.prems(1) by simp
    have b: "\<forall>m<5. mqttWindow (stats ?st) ! ((length (ds @ [d]) + m) mod 5) =
               (replicate 5 0 @ ds @ [d]) ! (length (ds @ [d]) + m)"
      using slot_step [OF Cons.prems(1) refl Cons.prems(3), of d] w by simp
    have c: "deltas (lastTotal st) (i # ins) = d # deltas total ins"
      using TickFired by (simp add: total_def d_def)
    from Cons.IH [OF a i, of ] b l c TickFired show ?thesis by simp
  next
    case StopChClosed
    with Cons.prems show ?thesis by simp
  qed
qed

text \<open>
  Claim C4. Let \<open>d\<^sub>1 \<dots> d\<^sub>k\<close> be the message deltas of the ticks the loop has processed
  (events may come in between). The rolling rate is the sum of all of them divided by 5
  when \<open>k \<le> 5\<close>, and the sum of the last five divided by 5 when \<open>k > 5\<close>; the window has
  five slots at all times. The sum is the 64-bit sum the code computes.
\<close>

theorem rolling_rate_window:
  "(length (deltas 0 ins) \<le> 5 \<longrightarrow>
      MsgsPerSec (stats (processEvents ins (loop_start n))) =
        real_of_int (sint (sum_list (deltas 0 ins))) / 5) \<and>
   (5 < length (deltas 0 ins) \<longrightarrow>
      MsgsPerSec (stats (processEvents ins (loop_start n))) =
        real_of_int (sint (sum_list (drop (length (deltas 0 ins) - 5) (deltas 0 ins)))) / 5) \<and>
   length (mqttWindow (stats (processEvents ins (loop_start n)))) = 5"
proof -
  let ?st = "processEvents ins (loop_start n)"
  let ?ds = "deltas 0 ins"
  let ?k = "length ?ds"
  have "length (mqttWindow (stats (loop_start n))) = 5" "windowIdx (stats (loop_start n)) = length ([] :: 64 word list)"
    "\<forall>m<5. mqttWindow (stats (loop_start n)) ! ((length ([] :: 64 word list) + m) mod 5) =
        (replicate 5 0 @ []) ! (length ([] :: 64 word list) + m)"
    by (simp_all add: loop_start_def)
  from processEvents_window [OF this, of ins]
  have len: "length (mqttWindow (stats ?st)) = 5"
    and inv: "\<forall>m<5. mqttWindow (stats ?st) ! ((?k + m) mod 5) = (replicate 5 0 @ ?ds) ! (?k + m)"
    by (simp_all add: loop_start_def)
  have "sum_list (mqttWindow (stats ?st)) = sum_list (drop ?k (replicate 5 0 @ ?ds))"
    by (rule slots_sum [OF len _ inv]) simp
  then have s: "window_sum (stats ?st) = sum_list (drop ?k (replicate 5 0 @ ?ds))"
    by (simp add: window_sum_def foldl_add_word)
  have small: "sum_list (drop ?k (replicate 5 0 @ ?ds)) = sum_list ?ds" if "?k \<le> 5"
    using that by (simp add: sum_list_replicate)
  have large: "sum_list (drop ?k (replicate 5 0 @ ?ds)) = sum_list (drop (?k - 5) ?ds)" if "5 < ?k"
    using that by simp
  from s small large len show ?thesis by (simp add: MsgsPerSec_def)
qed


theorem rolling_rate_window_witness:
  "length (deltas 0 two_ticks) \<le> 5 \<and>
   MsgsPerSec (stats (processEvents two_ticks (loop_start 2))) = 8 / 5 \<and>
   5 < length (deltas 0 seven_ticks) \<and>
   MsgsPerSec (stats (processEvents seven_ticks (loop_start 1))) = 9"
proof -
  have d2: "deltas 0 two_ticks = [3, 5]" by (simp add: two_ticks_def)
  have d7: "deltas 0 seven_ticks = [10, 10, 10, 10, 10, 10, 5]" by (simp add: seven_ticks_def)
  from rolling_rate_window [of two_ticks 2] rolling_rate_window [of seven_ticks 1]
  show ?thesis by (simp add: d2 d7)
qed

subsection \<open>Shutdown, twice\<close>

lemma device_Shutdown_closes: "device_Shutdown stopCh = Inr True"
  by (simp add: device_Shutdown_def close_chan_def)

lemma shutdown_devices_closes: "shutdown_devices ds = Inr (replicate (length ds) True)"
  by (induction ds) (simp_all add: device_Shutdown_closes)

lemma runner_Shutdown_closes:
  "runner_Shutdown r = Inr \<lparr>runner_stop = True, device_stops = replicate (length (device_stops r)) True\<rparr>"
  by (simp add: runner_Shutdown_def close_chan_def shutdown_devices_closes)

lemma Shutdown_twice_in_sequence:
  "\<exists>r'. runner_Shutdown r = Inr r' \<and> runner_Shutdown r' = Inr r' \<and>
     device_Shutdown stopCh = Inr True \<and> device_Shutdown True = Inr True"
  by (simp add: runner_Shutdown_closes device_Shutdown_closes)

text \<open>
  A call that runs alone shuts every channel of its list and ends, whatever was closed
  before: on its own, the thread does what the function above does.
\<close>

lemma finished_thread_idle:
  "run_schedule (replicate n 0) (Live chans [\<lparr>todo = [], at_close = False\<rparr>]) =
     Live chans [\<lparr>todo = [], at_close = False\<rparr>]"
  by (induction n) simp_all

lemma thread_alone:
  "\<forall>c\<in>set cs. c < length chans \<Longrightarrow> 2 * length cs \<le> n \<Longrightarrow>
   run_schedule (replicate n 0) (Live chans [\<lparr>todo = cs, at_close = False\<rparr>]) =
     Live (fold (\<lambda>c ch. ch[c := True]) cs chans) [\<lparr>todo = [], at_close = False\<rparr>]"
proof (induction cs arbitrary: chans n)
  case Nil
  then show ?case by (simp add: finished_thread_idle)
next
  case (Cons c cs)
  from Cons.prems(2) obtain m where n: "n = Suc (Suc m)" and m: "2 * length cs \<le> m"
    by (cases n; cases "n - 1") auto
  from Cons.prems(1) have c: "c < length chans" and rest: "\<forall>c'\<in>set cs. c' < length (chans[c := True])"
    by simp_all
  show ?case
  proof (cases "chans ! c")
    case True
    then have same: "chans[c := True] = chans" by (metis list_update_id)
    from m have "2 * length cs \<le> Suc m" by simp
    from Cons.IH [OF rest this] True same show ?thesis by (simp add: n)
  next
    case False
    from Cons.IH [OF rest m] False show ?thesis by (simp add: n close_chan_def)
  qed
qed

lemma one_after_the_other:
  "run_schedule [0, 0, 0, 0, 1, 1] (Live [False, False] [runner_Shutdown_thread 1, runner_Shutdown_thread 1]) =
     Live [True, True] [\<lparr>todo = [], at_close = False\<rparr>, \<lparr>todo = [], at_close = False\<rparr>]"
  by (simp add: runner_Shutdown_thread_def close_chan_def upt_rec)

text \<open>
  Claim C3 holds for two calls one after the other (\<open>Shutdown_twice_in_sequence\<close>), and
  fails for two concurrent calls: when both goroutines run their \<^verbatim>\<open>select\<close> before either runs
  its \<^verbatim>\<open>close\<close>, both take the \<^verbatim>\<open>default\<close> branch and the second \<^verbatim>\<open>close\<close> panics. This
  is so for \<^verbatim>\<open>Runner.Shutdown\<close> on \<^verbatim>\<open>r.StopCh\<close> and for \<^verbatim>\<open>MockDevice.Shutdown\<close> on the
  device's \<^verbatim>\<open>stopCh\<close>.
\<close>

theorem Shutdown_concurrent_double_close:
  "run_schedule [0, 1, 0, 1] (Live [False, False] [runner_Shutdown_thread 1, runner_Shutdown_thread 1]) = Crashed \<and>
   run_schedule [0, 1, 0, 1] (Live [False, False] [device_Shutdown_thread 0, device_Shutdown_thread 0]) = Crashed"
  by (simp add: runner_Shutdown_thread_def device_Shutdown_thread_def close_chan_def upt_rec)

end
